theory Spec2Isabelle
  imports Main "HOL-Library.Word" "HOL-Library.Finite_Map"
begin

section \<open>Shared vocabulary of the cache engines\<close>

text \<open>
  The package offers five eviction policies behind one interface (\<open>Get\<close>, \<open>Set\<close>,
  \<open>Fetch\<close>, \<open>Stop\<close>): FIFO, LIFO, LRU, random replacement and TTL, the last in two
  engines, one over a linked list and one over a heap. Every engine keeps a Go map from keys
  to cells (or, for the random engine, to values) and most keep a linked structure through
  those cells.

  Modelling conventions.
  \<^item> A Go \<open>map[K]T\<close> is a finite map \<open>('k, 't) fmap\<close>; \<open>len(m)\<close> is the number of
    its keys. A \<open>nil\<close> map reads like the empty map, and every write to a map in the
    source sits behind the \<open>isStopped\<close> guard, so \<open>l.cache = nil\<close> is the empty map.
    A key is found by equality. That is Go's map for the keys that are equal to themselves
    under \<open>==\<close>, which is every key but one that holds a floating-point \<open>NaN\<close>; the
    section on keys that are not equal to themselves has the map for all keys.
  \<^item> The cells an engine allocates live in an arena, a list of cell records; a pointer is
    \<open>nat option\<close>: \<open>None\<close> is \<open>nil\<close> and \<open>Some a\<close> is the cell at index \<open>a\<close>.
    \<open>&item{...}\<close> appends a cell and yields its index. An index outside the arena
    denotes no cell (Go has no such pointer): a read through it that decides something is
    treated like a read through \<open>nil\<close>, a write through it changes nothing.
  \<^item> A panic is a value \<open>Inl p\<close> of the result; a normal return is \<open>Inr\<close>.
  \<^item> The zero value of the value type \<open>V\<close> is \<open>0\<close> of class \<open>zero\<close>.
  \<^item> \<open>capacity int64\<close> and \<open>time.Time\<close>/\<open>time.Duration\<close> are only compared and
    added once; they are integers (nanoseconds for the times).
  \<^item> The \<open>sync\<close> locks are not modelled: every operation below is one critical section.
\<close>

datatype panic =
    CacheStopped          \<comment> \<open>\<open>panic("cache is stopped")\<close>\<close>
  | CapacityNotPositive   \<comment> \<open>\<open>panic("capacity must be greater than 0")\<close>\<close>
  | TTLNotPositive        \<comment> \<open>\<open>panic("ttl must be greater than 0")\<close>\<close>
  | NilPointer            \<comment> \<open>runtime error: nil pointer dereference\<close>
  | IndexOutOfRange       \<comment> \<open>runtime error: index out of range\<close>

definition len :: "('k, 'a) fmap \<Rightarrow> int" where
  "len m = int (fcard (fmdom m))"

text \<open>
  A \<open>FetchFunc[V]\<close> is \<open>func() (V, error)\<close>. It is modelled by a function from \<open>unit\<close>
  to the pair it returns; the error is \<open>None\<close> for Go's \<open>nil\<close>.
\<close>

type_synonym ('v, 'e) FetchFunc = "unit \<Rightarrow> 'v \<times> 'e option"

text \<open>
  The loops of \<open>Stop\<close> walk a list and cut the \<open>next\<close> link of every cell they visit.
  They end because every round cuts a link or finds none: \<open>links\<close> counts the cells of an
  arena whose link is not \<open>nil\<close>, and the measure of a walk is twice that number, plus one
  while the walking pointer is not \<open>nil\<close>.
\<close>

definition links :: "('n \<Rightarrow> nat option) \<Rightarrow> 'n list \<Rightarrow> nat" where
  "links nxt cells = card {i. i < length cells \<and> nxt (cells ! i) \<noteq> None}"

definition walk_measure :: "('n \<Rightarrow> nat option) \<Rightarrow> 'n list \<times> nat option \<Rightarrow> nat" where
  "walk_measure nxt = (\<lambda>(cells, p). 2 * links nxt cells + (case p of None \<Rightarrow> 0 | Some _ \<Rightarrow> 1))"


section \<open>FIFO (\<open>fifo.go\<close>)\<close>

record ('k, 'v) fifoListItem =
  fifo_next :: "nat option"
  fifo_key :: "'k option"
  fifo_value :: 'v

record ('k, 'v) FIFO =
  fifo_cache :: "('k, nat) fmap"
  fifo_head :: "nat option"
  fifo_tail :: "nat option"
  fifo_capacity :: int
  fifo_stopped :: "32 word"
  fifo_cells :: "('k, 'v) fifoListItem list"

definition NewFIFO :: "int \<Rightarrow> panic + ('k, 'v) FIFO" where
  "NewFIFO capacity =
     (if capacity \<le> 0 then Inl CapacityNotPositive
      else Inr \<lparr>fifo_cache = fmempty, fifo_head = None, fifo_tail = None,
                fifo_capacity = capacity, fifo_stopped = 0, fifo_cells = []\<rparr>)"

definition fifo_isStopped :: "('k, 'v) FIFO \<Rightarrow> bool" where
  "fifo_isStopped l = (fifo_stopped l = 1)"

definition fifo_get :: "('k, 'v::zero) FIFO \<Rightarrow> 'k \<Rightarrow> panic + (('v \<times> bool) \<times> ('k, 'v) FIFO)" where
  "fifo_get l key =
     (if fifo_isStopped l then Inl CacheStopped
      else case fmlookup (fifo_cache l) key of
             None \<Rightarrow> Inr ((0, False), l)
           | Some node \<Rightarrow>
               if node < length (fifo_cells l)
               then Inr ((fifo_value (fifo_cells l ! node), True), l)
               else Inl NilPointer)"

text \<open>
  The first block of \<open>set\<close>: when the map is at capacity the head cell is unlinked, its key
  is deleted from the map and the cell is zeroed. The block runs before the key is looked up.
\<close>

definition fifo_zero :: "('k, 'v::zero) fifoListItem" where
  "fifo_zero = \<lparr>fifo_next = None, fifo_key = None, fifo_value = 0\<rparr>"

definition fifo_evict :: "('k, 'v::zero) FIFO \<Rightarrow> panic + ('k, 'v) FIFO" where
  "fifo_evict l =
     (if len (fifo_cache l) \<ge> fifo_capacity l then
        (case fifo_head l of
           None \<Rightarrow> Inl NilPointer
         | Some head \<Rightarrow>
             if head < length (fifo_cells l) then
               (let next = fifo_next (fifo_cells l ! head) in
                case fifo_key (fifo_cells l ! head) of
                  None \<Rightarrow> Inl NilPointer
                | Some hk \<Rightarrow>
                    Inr (l\<lparr>fifo_cache := fmdrop hk (fifo_cache l),
                           fifo_cells := (fifo_cells l)[head := fifo_zero],
                           fifo_head := next\<rparr>))
             else Inl NilPointer)
      else Inr l)"

text \<open>The second block of \<open>set\<close>: look the key up, link a new cell at the tail when it is absent, write the value.\<close>

definition fifo_store :: "('k, 'v::zero) FIFO \<Rightarrow> 'k \<Rightarrow> 'v \<Rightarrow> ('k, 'v) FIFO" where
  "fifo_store l key val =
     (case fmlookup (fifo_cache l) key of
        Some node \<Rightarrow>
          l\<lparr>fifo_cells := (fifo_cells l)[node := (fifo_cells l ! node)\<lparr>fifo_value := val\<rparr>]\<rparr>
      | None \<Rightarrow>
          (let node = length (fifo_cells l);
               cells1 = fifo_cells l @ [\<lparr>fifo_next = None, fifo_key = Some key, fifo_value = 0\<rparr>];
               cells2 = (case fifo_tail l of
                          None \<Rightarrow> cells1
                        | Some t \<Rightarrow> cells1[t := (cells1 ! t)\<lparr>fifo_next := Some node\<rparr>]);
               head1 = (case fifo_head l of None \<Rightarrow> Some node | Some h \<Rightarrow> Some h)
           in l\<lparr>fifo_cache := fmupd key node (fifo_cache l),
                fifo_cells := cells2[node := (cells2 ! node)\<lparr>fifo_value := val\<rparr>],
                fifo_tail := Some node,
                fifo_head := head1\<rparr>))"

definition fifo_set :: "('k, 'v::zero) FIFO \<Rightarrow> 'k \<Rightarrow> 'v \<Rightarrow> panic + ('k, 'v) FIFO" where
  "fifo_set l key val =
     (if fifo_isStopped l then Inl CacheStopped
      else case fifo_evict l of
             Inl p \<Rightarrow> Inl p
           | Inr l1 \<Rightarrow> Inr (fifo_store l1 key val))"

definition fifo_Fetch ::
  "('k, 'v::zero) FIFO \<Rightarrow> 'k \<Rightarrow> ('v, 'e) FetchFunc \<Rightarrow> panic + (('v \<times> 'e option) \<times> ('k, 'v) FIFO)" where
  "fifo_Fetch l key fn =
     (if fifo_isStopped l then Inl CacheStopped
      else case fifo_get l key of
             Inl p \<Rightarrow> Inl p
           | Inr ((v, ok), l1) \<Rightarrow>
               if ok then Inr ((v, None), l1)
               else (case fn () of
                       (v, Some err) \<Rightarrow> Inr ((0, Some err), l1)
                     | (v, None) \<Rightarrow>
                         (case fifo_set l1 key v of
                            Inl p \<Rightarrow> Inl p
                          | Inr l2 \<Rightarrow> Inr ((v, None), l2))))"

text \<open>
  The loop of \<open>Stop\<close> walks the list from the head, zeroing every cell and cutting its
  \<open>next\<close> link. Every round cuts a link or ends the walk, so it ends on every arena.
\<close>

function fifo_clear :: "('k, 'v::zero) fifoListItem list \<Rightarrow> nat option \<Rightarrow> ('k, 'v) fifoListItem list" where
  "fifo_clear cells None = cells"
| "fifo_clear cells (Some node) =
     (if node < length cells
      then fifo_clear (cells[node := fifo_zero]) (fifo_next (cells ! node))
      else cells)"
  by pat_completeness auto
termination
proof (relation "measure (walk_measure fifo_next)")
  show "wf (measure (walk_measure fifo_next))" by simp
next
  fix cells :: "('k, 'v::zero) fifoListItem list" and node
  assume v: "node < length cells"
  define S where "S = {i. i < length cells \<and> fifo_next (cells ! i) \<noteq> None}"
  define cells' where "cells' = cells[node := fifo_zero]"
  have fin: "finite S" by (simp add: S_def)
  have cut: "{i. i < length cells' \<and> fifo_next (cells' ! i) \<noteq> None} = S - {node}"
    using v by (auto simp: S_def cells'_def nth_list_update fifo_zero_def)
  have m1: "walk_measure fifo_next (cells', fifo_next (cells ! node))
              = 2 * card (S - {node}) + (case fifo_next (cells ! node) of None \<Rightarrow> 0 | Some _ \<Rightarrow> 1)"
    by (simp only: walk_measure_def links_def cut prod.case)
  have m2: "walk_measure fifo_next (cells, Some node) = 2 * card S + 1"
    by (simp only: walk_measure_def links_def S_def prod.case option.case)
  have "2 * card (S - {node}) + (case fifo_next (cells ! node) of None \<Rightarrow> 0 | Some _ \<Rightarrow> 1)
          < 2 * card S + 1"
  proof (cases "fifo_next (cells ! node)")
    case None
    then have "node \<notin> S" by (simp add: S_def)
    with None show ?thesis by simp
  next
    case (Some m)
    with v have "node \<in> S" by (simp add: S_def)
    with fin have "card (S - {node}) < card S" by (intro card_Diff1_less)
    with Some show ?thesis by simp
  qed
  then show "((cells[node := fifo_zero], fifo_next (cells ! node)), (cells, Some node))
               \<in> measure (walk_measure fifo_next)"
    by (simp only: in_measure m1 m2 cells'_def [symmetric])
qed

definition fifo_Stop :: "('k, 'v::zero) FIFO \<Rightarrow> ('k, 'v) FIFO" where
  "fifo_Stop l =
     (if fifo_stopped l \<noteq> 0 then l
      else l\<lparr>fifo_stopped := 1,
             fifo_cache := fmempty,
             fifo_cells := fifo_clear (fifo_cells l) (fifo_head l),
             fifo_head := None,
             fifo_tail := None\<rparr>)"

fun fifo_sets :: "('k, 'v::zero) FIFO \<Rightarrow> ('k \<times> 'v) list \<Rightarrow> panic + ('k, 'v) FIFO" where
  "fifo_sets l [] = Inr l"
| "fifo_sets l ((k, v) # kvs) =
     (case fifo_set l k v of Inl p \<Rightarrow> Inl p | Inr l1 \<Rightarrow> fifo_sets l1 kvs)"


section \<open>LIFO (\<open>lifo.go\<close>)\<close>

record ('k, 'v) lifoListItem =
  lifo_next :: "nat option"
  lifo_key :: "'k option"
  lifo_value :: 'v

record ('k, 'v) LIFO =
  lifo_cache :: "('k, nat) fmap"
  lifo_head :: "nat option"
  lifo_capacity :: int
  lifo_stopped :: "32 word"
  lifo_cells :: "('k, 'v) lifoListItem list"

definition NewLIFO :: "int \<Rightarrow> panic + ('k, 'v) LIFO" where
  "NewLIFO capacity =
     (if capacity \<le> 0 then Inl CapacityNotPositive
      else Inr \<lparr>lifo_cache = fmempty, lifo_head = None,
                lifo_capacity = capacity, lifo_stopped = 0, lifo_cells = []\<rparr>)"

definition lifo_isStopped :: "('k, 'v) LIFO \<Rightarrow> bool" where
  "lifo_isStopped l = (lifo_stopped l = 1)"

definition lifo_get :: "('k, 'v::zero) LIFO \<Rightarrow> 'k \<Rightarrow> panic + (('v \<times> bool) \<times> ('k, 'v) LIFO)" where
  "lifo_get l key =
     (if lifo_isStopped l then Inl CacheStopped
      else case fmlookup (lifo_cache l) key of
             None \<Rightarrow> Inr ((0, False), l)
           | Some node \<Rightarrow>
               if node < length (lifo_cells l)
               then Inr ((lifo_value (lifo_cells l ! node), True), l)
               else Inl NilPointer)"

definition lifo_zero :: "('k, 'v::zero) lifoListItem" where
  "lifo_zero = \<lparr>lifo_next = None, lifo_key = None, lifo_value = 0\<rparr>"

text \<open>The first block of \<open>set\<close>, the same as in the FIFO engine: at capacity the head cell goes.\<close>

definition lifo_evict :: "('k, 'v::zero) LIFO \<Rightarrow> panic + ('k, 'v) LIFO" where
  "lifo_evict l =
     (if len (lifo_cache l) \<ge> lifo_capacity l then
        (case lifo_head l of
           None \<Rightarrow> Inl NilPointer
         | Some head \<Rightarrow>
             if head < length (lifo_cells l) then
               (let next = lifo_next (lifo_cells l ! head) in
                case lifo_key (lifo_cells l ! head) of
                  None \<Rightarrow> Inl NilPointer
                | Some hk \<Rightarrow>
                    Inr (l\<lparr>lifo_cache := fmdrop hk (lifo_cache l),
                           lifo_cells := (lifo_cells l)[head := lifo_zero],
                           lifo_head := next\<rparr>))
             else Inl NilPointer)
      else Inr l)"

text \<open>The second block of \<open>set\<close>: a new cell is linked in front of the head.\<close>

definition lifo_store :: "('k, 'v::zero) LIFO \<Rightarrow> 'k \<Rightarrow> 'v \<Rightarrow> ('k, 'v) LIFO" where
  "lifo_store l key val =
     (case fmlookup (lifo_cache l) key of
        Some node \<Rightarrow>
          l\<lparr>lifo_cells := (lifo_cells l)[node := (lifo_cells l ! node)\<lparr>lifo_value := val\<rparr>]\<rparr>
      | None \<Rightarrow>
          (let node = length (lifo_cells l);
               cells1 = lifo_cells l @ [\<lparr>lifo_next = None, lifo_key = Some key, lifo_value = 0\<rparr>];
               cells2 = cells1[node := (cells1 ! node)\<lparr>lifo_next := lifo_head l\<rparr>]
           in l\<lparr>lifo_cache := fmupd key node (lifo_cache l),
                lifo_cells := cells2[node := (cells2 ! node)\<lparr>lifo_value := val\<rparr>],
                lifo_head := Some node\<rparr>))"

definition lifo_set :: "('k, 'v::zero) LIFO \<Rightarrow> 'k \<Rightarrow> 'v \<Rightarrow> panic + ('k, 'v) LIFO" where
  "lifo_set l key val =
     (if lifo_isStopped l then Inl CacheStopped
      else case lifo_evict l of
             Inl p \<Rightarrow> Inl p
           | Inr l1 \<Rightarrow> Inr (lifo_store l1 key val))"

definition lifo_Fetch ::
  "('k, 'v::zero) LIFO \<Rightarrow> 'k \<Rightarrow> ('v, 'e) FetchFunc \<Rightarrow> panic + (('v \<times> 'e option) \<times> ('k, 'v) LIFO)" where
  "lifo_Fetch l key fn =
     (if lifo_isStopped l then Inl CacheStopped
      else case lifo_get l key of
             Inl p \<Rightarrow> Inl p
           | Inr ((v, ok), l1) \<Rightarrow>
               if ok then Inr ((v, None), l1)
               else (case fn () of
                       (v, Some err) \<Rightarrow> Inr ((0, Some err), l1)
                     | (v, None) \<Rightarrow>
                         (case lifo_set l1 key v of
                            Inl p \<Rightarrow> Inl p
                          | Inr l2 \<Rightarrow> Inr ((v, None), l2))))"

function lifo_clear :: "('k, 'v::zero) lifoListItem list \<Rightarrow> nat option \<Rightarrow> ('k, 'v) lifoListItem list" where
  "lifo_clear cells None = cells"
| "lifo_clear cells (Some node) =
     (if node < length cells
      then lifo_clear (cells[node := lifo_zero]) (lifo_next (cells ! node))
      else cells)"
  by pat_completeness auto
termination
proof (relation "measure (walk_measure lifo_next)")
  show "wf (measure (walk_measure lifo_next))" by simp
next
  fix cells :: "('k, 'v::zero) lifoListItem list" and node
  assume v: "node < length cells"
  define S where "S = {i. i < length cells \<and> lifo_next (cells ! i) \<noteq> None}"
  define cells' where "cells' = cells[node := lifo_zero]"
  have fin: "finite S" by (simp add: S_def)
  have cut: "{i. i < length cells' \<and> lifo_next (cells' ! i) \<noteq> None} = S - {node}"
    using v by (auto simp: S_def cells'_def nth_list_update lifo_zero_def)
  have m1: "walk_measure lifo_next (cells', lifo_next (cells ! node))
              = 2 * card (S - {node}) + (case lifo_next (cells ! node) of None \<Rightarrow> 0 | Some _ \<Rightarrow> 1)"
    by (simp only: walk_measure_def links_def cut prod.case)
  have m2: "walk_measure lifo_next (cells, Some node) = 2 * card S + 1"
    by (simp only: walk_measure_def links_def S_def prod.case option.case)
  have "2 * card (S - {node}) + (case lifo_next (cells ! node) of None \<Rightarrow> 0 | Some _ \<Rightarrow> 1)
          < 2 * card S + 1"
  proof (cases "lifo_next (cells ! node)")
    case None
    then have "node \<notin> S" by (simp add: S_def)
    with None show ?thesis by simp
  next
    case (Some m)
    with v have "node \<in> S" by (simp add: S_def)
    with fin have "card (S - {node}) < card S" by (intro card_Diff1_less)
    with Some show ?thesis by simp
  qed
  then show "((cells[node := lifo_zero], lifo_next (cells ! node)), (cells, Some node))
               \<in> measure (walk_measure lifo_next)"
    by (simp only: in_measure m1 m2 cells'_def [symmetric])
qed

definition lifo_Stop :: "('k, 'v::zero) LIFO \<Rightarrow> ('k, 'v) LIFO" where
  "lifo_Stop l =
     (if lifo_stopped l \<noteq> 0 then l
      else l\<lparr>lifo_stopped := 1,
             lifo_cache := fmempty,
             lifo_cells := lifo_clear (lifo_cells l) (lifo_head l),
             lifo_head := None\<rparr>)"

fun lifo_sets :: "('k, 'v::zero) LIFO \<Rightarrow> ('k \<times> 'v) list \<Rightarrow> panic + ('k, 'v) LIFO" where
  "lifo_sets l [] = Inr l"
| "lifo_sets l ((k, v) # kvs) =
     (case lifo_set l k v of Inl p \<Rightarrow> Inl p | Inr l1 \<Rightarrow> lifo_sets l1 kvs)"


section \<open>LRU (\<open>lru.go\<close>)\<close>

record ('k, 'v) lruListItem =
  lru_prev :: "nat option"
  lru_next :: "nat option"
  lru_key :: "'k option"
  lru_value :: 'v

record ('k, 'v) LRU =
  lru_cache :: "('k, nat) fmap"
  lru_head :: "nat option"
  lru_tail :: "nat option"
  lru_capacity :: int
  lru_stopped :: "32 word"
  lru_cells :: "('k, 'v) lruListItem list"

definition NewLRU :: "int \<Rightarrow> panic + ('k, 'v) LRU" where
  "NewLRU capacity =
     (if capacity \<le> 0 then Inl CapacityNotPositive
      else Inr \<lparr>lru_cache = fmempty, lru_head = None, lru_tail = None,
                lru_capacity = capacity, lru_stopped = 0, lru_cells = []\<rparr>)"

definition lru_isStopped :: "('k, 'v) LRU \<Rightarrow> bool" where
  "lru_isStopped l = (lru_stopped l = 1)"

text \<open>
  \<open>moveToTail\<close> is only called with a pointer that was just read from the map or just
  allocated; its callers check that the index denotes a cell.
\<close>

definition lru_moveToTail :: "('k, 'v) LRU \<Rightarrow> nat \<Rightarrow> ('k, 'v) LRU" where
  "lru_moveToTail l node =
     (if Some node = lru_tail l then l
      else
        (let head1 = (if Some node = lru_head l then lru_next (lru_cells l ! node) else lru_head l);
             cells0 = lru_cells l;
             cells1 = (case lru_prev (cells0 ! node) of
                         None \<Rightarrow> cells0
                       | Some p \<Rightarrow> cells0[p := (cells0 ! p)\<lparr>lru_next := lru_next (cells0 ! node)\<rparr>]);
             cells2 = (case lru_next (cells1 ! node) of
                         None \<Rightarrow> cells1
                       | Some n \<Rightarrow> cells1[n := (cells1 ! n)\<lparr>lru_prev := lru_prev (cells1 ! node)\<rparr>]);
             cells3 = (case lru_tail l of
                         None \<Rightarrow> cells2
                       | Some t \<Rightarrow> cells2[t := (cells2 ! t)\<lparr>lru_next := Some node\<rparr>]);
             cells4 = cells3[node := (cells3 ! node)\<lparr>lru_next := None, lru_prev := lru_tail l\<rparr>];
             head2 = (case head1 of None \<Rightarrow> Some node | Some h \<Rightarrow> Some h)
         in l\<lparr>lru_cells := cells4, lru_tail := Some node, lru_head := head2\<rparr>))"

definition lru_get :: "('k, 'v::zero) LRU \<Rightarrow> 'k \<Rightarrow> panic + (('v \<times> bool) \<times> ('k, 'v) LRU)" where
  "lru_get l key =
     (if lru_isStopped l then Inl CacheStopped
      else case fmlookup (lru_cache l) key of
             None \<Rightarrow> Inr ((0, False), l)
           | Some node \<Rightarrow>
               if node < length (lru_cells l)
               then (let l1 = lru_moveToTail l node
                     in Inr ((lru_value (lru_cells l1 ! node), True), l1))
               else Inl NilPointer)"

definition lru_zero :: "('k, 'v::zero) lruListItem" where
  "lru_zero = \<lparr>lru_prev = None, lru_next = None, lru_key = None, lru_value = 0\<rparr>"

text \<open>The first block of \<open>set\<close>: at capacity the head cell goes and its successor loses its \<open>prev\<close> link.\<close>

definition lru_evict :: "('k, 'v::zero) LRU \<Rightarrow> panic + ('k, 'v) LRU" where
  "lru_evict l =
     (if len (lru_cache l) \<ge> lru_capacity l then
        (case lru_head l of
           None \<Rightarrow> Inl NilPointer
         | Some head \<Rightarrow>
             if head < length (lru_cells l) then
               (let next = lru_next (lru_cells l ! head) in
                case lru_key (lru_cells l ! head) of
                  None \<Rightarrow> Inl NilPointer
                | Some hk \<Rightarrow>
                    (let cells1 = (lru_cells l)[head := lru_zero];
                         cells2 = (case next of
                                     None \<Rightarrow> cells1
                                   | Some n \<Rightarrow> cells1[n := (cells1 ! n)\<lparr>lru_prev := None\<rparr>])
                     in Inr (l\<lparr>lru_cache := fmdrop hk (lru_cache l),
                               lru_cells := cells2,
                               lru_head := next\<rparr>)))
             else Inl NilPointer)
      else Inr l)"

text \<open>The second block of \<open>set\<close>: find or allocate the cell, write the value, move the cell to the tail.\<close>

definition lru_store :: "('k, 'v::zero) LRU \<Rightarrow> 'k \<Rightarrow> 'v \<Rightarrow> panic + ('k, 'v) LRU" where
  "lru_store l key val =
     (case fmlookup (lru_cache l) key of
        Some node \<Rightarrow>
          if node < length (lru_cells l)
          then Inr (lru_moveToTail
                 (l\<lparr>lru_cells := (lru_cells l)[node := (lru_cells l ! node)\<lparr>lru_value := val\<rparr>]\<rparr>) node)
          else Inl NilPointer
      | None \<Rightarrow>
          (let node = length (lru_cells l);
               cells1 = lru_cells l @ [\<lparr>lru_prev = None, lru_next = None, lru_key = Some key, lru_value = 0\<rparr>]
           in Inr (lru_moveToTail
                 (l\<lparr>lru_cache := fmupd key node (lru_cache l),
                    lru_cells := cells1[node := (cells1 ! node)\<lparr>lru_value := val\<rparr>]\<rparr>) node)))"

definition lru_set :: "('k, 'v::zero) LRU \<Rightarrow> 'k \<Rightarrow> 'v \<Rightarrow> panic + ('k, 'v) LRU" where
  "lru_set l key val =
     (if lru_isStopped l then Inl CacheStopped
      else case lru_evict l of
             Inl p \<Rightarrow> Inl p
           | Inr l1 \<Rightarrow> lru_store l1 key val)"

definition lru_Fetch ::
  "('k, 'v::zero) LRU \<Rightarrow> 'k \<Rightarrow> ('v, 'e) FetchFunc \<Rightarrow> panic + (('v \<times> 'e option) \<times> ('k, 'v) LRU)" where
  "lru_Fetch l key fn =
     (if lru_isStopped l then Inl CacheStopped
      else case lru_get l key of
             Inl p \<Rightarrow> Inl p
           | Inr ((v, ok), l1) \<Rightarrow>
               if ok then Inr ((v, None), l1)
               else (case fn () of
                       (v, Some err) \<Rightarrow> Inr ((0, Some err), l1)
                     | (v, None) \<Rightarrow>
                         (case lru_set l1 key v of
                            Inl p \<Rightarrow> Inl p
                          | Inr l2 \<Rightarrow> Inr ((v, None), l2))))"

function lru_clear :: "('k, 'v::zero) lruListItem list \<Rightarrow> nat option \<Rightarrow> ('k, 'v) lruListItem list" where
  "lru_clear cells None = cells"
| "lru_clear cells (Some node) =
     (if node < length cells
      then lru_clear (cells[node := lru_zero]) (lru_next (cells ! node))
      else cells)"
  by pat_completeness auto
termination
proof (relation "measure (walk_measure lru_next)")
  show "wf (measure (walk_measure lru_next))" by simp
next
  fix cells :: "('k, 'v::zero) lruListItem list" and node
  assume v: "node < length cells"
  define S where "S = {i. i < length cells \<and> lru_next (cells ! i) \<noteq> None}"
  define cells' where "cells' = cells[node := lru_zero]"
  have fin: "finite S" by (simp add: S_def)
  have cut: "{i. i < length cells' \<and> lru_next (cells' ! i) \<noteq> None} = S - {node}"
    using v by (auto simp: S_def cells'_def nth_list_update lru_zero_def)
  have m1: "walk_measure lru_next (cells', lru_next (cells ! node))
              = 2 * card (S - {node}) + (case lru_next (cells ! node) of None \<Rightarrow> 0 | Some _ \<Rightarrow> 1)"
    by (simp only: walk_measure_def links_def cut prod.case)
  have m2: "walk_measure lru_next (cells, Some node) = 2 * card S + 1"
    by (simp only: walk_measure_def links_def S_def prod.case option.case)
  have "2 * card (S - {node}) + (case lru_next (cells ! node) of None \<Rightarrow> 0 | Some _ \<Rightarrow> 1)
          < 2 * card S + 1"
  proof (cases "lru_next (cells ! node)")
    case None
    then have "node \<notin> S" by (simp add: S_def)
    with None show ?thesis by simp
  next
    case (Some m)
    with v have "node \<in> S" by (simp add: S_def)
    with fin have "card (S - {node}) < card S" by (intro card_Diff1_less)
    with Some show ?thesis by simp
  qed
  then show "((cells[node := lru_zero], lru_next (cells ! node)), (cells, Some node))
               \<in> measure (walk_measure lru_next)"
    by (simp only: in_measure m1 m2 cells'_def [symmetric])
qed

definition lru_Stop :: "('k, 'v::zero) LRU \<Rightarrow> ('k, 'v) LRU" where
  "lru_Stop l =
     (if lru_stopped l \<noteq> 0 then l
      else l\<lparr>lru_stopped := 1,
             lru_cache := fmempty,
             lru_cells := lru_clear (lru_cells l) (lru_head l),
             lru_head := None,
             lru_tail := None\<rparr>)"

fun lru_sets :: "('k, 'v::zero) LRU \<Rightarrow> ('k \<times> 'v) list \<Rightarrow> panic + ('k, 'v) LRU" where
  "lru_sets l [] = Inr l"
| "lru_sets l ((k, v) # kvs) =
     (case lru_set l k v of Inl p \<Rightarrow> Inl p | Inr l1 \<Rightarrow> lru_sets l1 kvs)"


section \<open>Random replacement (\<open>random.go\<close>)\<close>

record ('k, 'v) Random =
  random_cache :: "('k, 'v) fmap"
  random_capacity :: int
  random_stopped :: "32 word"

definition NewRandom :: "int \<Rightarrow> panic + ('k, 'v) Random" where
  "NewRandom capacity =
     (if capacity \<le> 0 then Inl CapacityNotPositive
      else Inr \<lparr>random_cache = fmempty, random_capacity = capacity, random_stopped = 0\<rparr>)"

definition random_isStopped :: "('k, 'v) Random \<Rightarrow> bool" where
  "random_isStopped l = (random_stopped l = 1)"

definition random_get :: "('k, 'v::zero) Random \<Rightarrow> 'k \<Rightarrow> panic + (('v \<times> bool) \<times> ('k, 'v) Random)" where
  "random_get l key =
     (if random_isStopped l then Inl CacheStopped
      else case fmlookup (random_cache l) key of
             None \<Rightarrow> Inr ((0, False), l)
           | Some v \<Rightarrow> Inr ((v, True), l))"

text \<open>
  At capacity, \<open>set\<close> deletes the key that \<open>range\<close> yields first. Go leaves the iteration
  order of a map open, so \<open>set\<close> is a relation between a call and its possible outcomes:
  any key of the map may go (rule \<open>evict\<close>); over an empty map the loop body does not run
  (rule \<open>nothing\<close>).
\<close>

inductive random_set ::
  "('k, 'v) Random \<Rightarrow> 'k \<Rightarrow> 'v \<Rightarrow> panic + ('k, 'v) Random \<Rightarrow> bool" where
  stopped:
    "random_isStopped l \<Longrightarrow> random_set l key val (Inl CacheStopped)"
| room:
    "\<not> random_isStopped l \<Longrightarrow> len (random_cache l) < random_capacity l \<Longrightarrow>
     random_set l key val (Inr (l\<lparr>random_cache := fmupd key val (random_cache l)\<rparr>))"
| evict:
    "\<not> random_isStopped l \<Longrightarrow> len (random_cache l) \<ge> random_capacity l \<Longrightarrow>
     k |\<in>| fmdom (random_cache l) \<Longrightarrow>
     random_set l key val (Inr (l\<lparr>random_cache := fmupd key val (fmdrop k (random_cache l))\<rparr>))"
| nothing:
    "\<not> random_isStopped l \<Longrightarrow> len (random_cache l) \<ge> random_capacity l \<Longrightarrow>
     fmdom (random_cache l) = {||} \<Longrightarrow>
     random_set l key val (Inr (l\<lparr>random_cache := fmupd key val (random_cache l)\<rparr>))"

inductive random_Fetch ::
  "('k, 'v::zero) Random \<Rightarrow> 'k \<Rightarrow> ('v, 'e) FetchFunc \<Rightarrow>
   panic + (('v \<times> 'e option) \<times> ('k, 'v) Random) \<Rightarrow> bool" where
  stopped:
    "random_isStopped l \<Longrightarrow> random_Fetch l key fn (Inl CacheStopped)"
| hit:
    "\<not> random_isStopped l \<Longrightarrow> random_get l key = Inr ((v, True), l1) \<Longrightarrow>
     random_Fetch l key fn (Inr ((v, None), l1))"
| failed:
    "\<not> random_isStopped l \<Longrightarrow> random_get l key = Inr ((v, False), l1) \<Longrightarrow>
     fn () = (w, Some err) \<Longrightarrow>
     random_Fetch l key fn (Inr ((0, Some err), l1))"
| stored:
    "\<not> random_isStopped l \<Longrightarrow> random_get l key = Inr ((v, False), l1) \<Longrightarrow>
     fn () = (w, None) \<Longrightarrow> random_set l1 key w (Inr l2) \<Longrightarrow>
     random_Fetch l key fn (Inr ((w, None), l2))"
| panicked:
    "\<not> random_isStopped l \<Longrightarrow> random_get l key = Inr ((v, False), l1) \<Longrightarrow>
     fn () = (w, None) \<Longrightarrow> random_set l1 key w (Inl p) \<Longrightarrow>
     random_Fetch l key fn (Inl p)"

definition random_Stop :: "('k, 'v) Random \<Rightarrow> ('k, 'v) Random" where
  "random_Stop l =
     (if random_stopped l \<noteq> 0 then l
      else l\<lparr>random_stopped := 1, random_cache := fmempty\<rparr>)"

text \<open>A run of \<open>Set\<close> calls, stopping at the first panic.\<close>

inductive random_sets ::
  "('k, 'v) Random \<Rightarrow> ('k \<times> 'v) list \<Rightarrow> panic + ('k, 'v) Random \<Rightarrow> bool" where
  over: "random_sets l [] (Inr l)"
| halt: "random_set l k v (Inl p) \<Longrightarrow> random_sets l ((k, v) # kvs) (Inl p)"
| step: "random_set l k v (Inr l1) \<Longrightarrow> random_sets l1 kvs r \<Longrightarrow> random_sets l ((k, v) # kvs) r"


section \<open>TTL over a linked list (\<open>ttl.go\<close>)\<close>

text \<open>
  The constructor also starts the sweeper goroutine, and \<open>Stop\<close> closes \<open>stopCh\<close> to end
  it; of the two only the closing of the channel is kept, as a flag. The callers \<open>Get\<close>,
  \<open>Set\<close> and \<open>Fetch\<close> read the clock and pass it on as \<open>now\<close>.
\<close>

record ('k, 'v) ttlListItem =
  ttl_next :: "nat option"
  ttl_key :: "'k option"
  ttl_value :: 'v
  ttl_expiresAt :: "int option"

record ('k, 'v) TTL =
  ttl_cache :: "('k, nat) fmap"
  ttl_head :: "nat option"
  ttl_tail :: "nat option"
  ttl_ttl :: int
  ttl_stopped :: "32 word"
  ttl_stopCh_closed :: bool
  ttl_cells :: "('k, 'v) ttlListItem list"

definition NewTTL :: "int \<Rightarrow> panic + ('k, 'v) TTL" where
  "NewTTL ttl =
     (if ttl \<le> 0 then Inl TTLNotPositive
      else Inr \<lparr>ttl_cache = fmempty, ttl_head = None, ttl_tail = None, ttl_ttl = ttl,
                ttl_stopped = 0, ttl_stopCh_closed = False, ttl_cells = []\<rparr>)"

definition ttl_isStopped :: "('k, 'v) TTL \<Rightarrow> bool" where
  "ttl_isStopped l = (ttl_stopped l = 1)"

text \<open>\<open>v.expiresAt.Before(now)\<close> reads through the pointer \<open>expiresAt\<close>.\<close>

definition ttl_get :: "('k, 'v::zero) TTL \<Rightarrow> 'k \<Rightarrow> int \<Rightarrow> panic + (('v \<times> bool) \<times> ('k, 'v) TTL)" where
  "ttl_get l key now =
     (if ttl_isStopped l then Inl CacheStopped
      else case fmlookup (ttl_cache l) key of
             None \<Rightarrow> Inr ((0, False), l)
           | Some v \<Rightarrow>
               if v < length (ttl_cells l) then
                 (case ttl_expiresAt (ttl_cells l ! v) of
                    None \<Rightarrow> Inl NilPointer
                  | Some e \<Rightarrow>
                      if e < now then Inr ((0, False), l)
                      else Inr ((ttl_value (ttl_cells l ! v), True), l))
               else Inl NilPointer)"

text \<open>
  \<open>set\<close> allocates a cell only for a new key. The cell found or allocated gets the value
  and the expiry; then, whether the cell is new or not, it becomes the head of an empty list,
  the old tail is linked to it and it becomes the tail.
\<close>

definition ttl_set :: "('k, 'v::zero) TTL \<Rightarrow> 'k \<Rightarrow> 'v \<Rightarrow> int \<Rightarrow> panic + ('k, 'v) TTL" where
  "ttl_set l key val now =
     (if ttl_isStopped l then Inl CacheStopped
      else
        (let (node, cache1, cells1) =
               (case fmlookup (ttl_cache l) key of
                  Some node \<Rightarrow> (node, ttl_cache l, ttl_cells l)
                | None \<Rightarrow>
                    (length (ttl_cells l),
                     fmupd key (length (ttl_cells l)) (ttl_cache l),
                     ttl_cells l @ [\<lparr>ttl_next = None, ttl_key = Some key, ttl_value = 0,
                                     ttl_expiresAt = None\<rparr>]));
             cells2 = cells1[node := (cells1 ! node)\<lparr>ttl_value := val,
                                                      ttl_expiresAt := Some (now + ttl_ttl l)\<rparr>];
             head1 = (case ttl_head l of None \<Rightarrow> Some node | Some h \<Rightarrow> Some h);
             cells3 = (case ttl_tail l of
                         None \<Rightarrow> cells2
                       | Some t \<Rightarrow> cells2[t := (cells2 ! t)\<lparr>ttl_next := Some node\<rparr>])
         in Inr (l\<lparr>ttl_cache := cache1, ttl_cells := cells3,
                   ttl_head := head1, ttl_tail := Some node\<rparr>)))"

definition ttl_Fetch ::
  "('k, 'v::zero) TTL \<Rightarrow> 'k \<Rightarrow> ('v, 'e) FetchFunc \<Rightarrow> int \<Rightarrow>
   panic + (('v \<times> 'e option) \<times> ('k, 'v) TTL)" where
  "ttl_Fetch l key fn now =
     (if ttl_isStopped l then Inl CacheStopped
      else case ttl_get l key now of
             Inl p \<Rightarrow> Inl p
           | Inr ((v, ok), l1) \<Rightarrow>
               if ok then Inr ((v, None), l1)
               else (case fn () of
                       (v, Some err) \<Rightarrow> Inr ((0, Some err), l1)
                     | (v, None) \<Rightarrow>
                         (case ttl_set l1 key v now of
                            Inl p \<Rightarrow> Inl p
                          | Inr l2 \<Rightarrow> Inr ((v, None), l2))))"

text \<open>
  The first loop of \<open>Stop\<close> ranges over the map and zeroes key, value and expiry of every
  cell the map points to. Its outcome does not depend on the order: the cells at the indices
  in the range of the map are zeroed. The second loop walks the list as in the other engines,
  leaving \<open>expiresAt\<close> alone.
\<close>

definition ttl_zero_cached :: "('k, nat) fmap \<Rightarrow> ('k, 'v::zero) ttlListItem list \<Rightarrow> ('k, 'v) ttlListItem list" where
  "ttl_zero_cached cache cells =
     map (\<lambda>(a, c). if a |\<in>| fmran cache
                    then c\<lparr>ttl_key := None, ttl_value := 0, ttl_expiresAt := None\<rparr>
                    else c)
         (zip [0..<length cells] cells)"

function ttl_clear :: "('k, 'v::zero) ttlListItem list \<Rightarrow> nat option \<Rightarrow> ('k, 'v) ttlListItem list" where
  "ttl_clear cells None = cells"
| "ttl_clear cells (Some node) =
     (if node < length cells
      then ttl_clear (cells[node := (cells ! node)\<lparr>ttl_key := None, ttl_value := 0, ttl_next := None\<rparr>])
                     (ttl_next (cells ! node))
      else cells)"
  by pat_completeness auto
termination
proof (relation "measure (walk_measure ttl_next)")
  show "wf (measure (walk_measure ttl_next))" by simp
next
  fix cells :: "('k, 'v::zero) ttlListItem list" and node
  assume v: "node < length cells"
  define S where "S = {i. i < length cells \<and> ttl_next (cells ! i) \<noteq> None}"
  define cells' where "cells' = cells[node := (cells ! node)\<lparr>ttl_key := None, ttl_value := 0, ttl_next := None\<rparr>]"
  have fin: "finite S" by (simp add: S_def)
  have cut: "{i. i < length cells' \<and> ttl_next (cells' ! i) \<noteq> None} = S - {node}"
    using v by (auto simp: S_def cells'_def nth_list_update)
  have m1: "walk_measure ttl_next (cells', ttl_next (cells ! node))
              = 2 * card (S - {node}) + (case ttl_next (cells ! node) of None \<Rightarrow> 0 | Some _ \<Rightarrow> 1)"
    by (simp only: walk_measure_def links_def cut prod.case)
  have m2: "walk_measure ttl_next (cells, Some node) = 2 * card S + 1"
    by (simp only: walk_measure_def links_def S_def prod.case option.case)
  have "2 * card (S - {node}) + (case ttl_next (cells ! node) of None \<Rightarrow> 0 | Some _ \<Rightarrow> 1)
          < 2 * card S + 1"
  proof (cases "ttl_next (cells ! node)")
    case None
    then have "node \<notin> S" by (simp add: S_def)
    with None show ?thesis by simp
  next
    case (Some m)
    with v have "node \<in> S" by (simp add: S_def)
    with fin have "card (S - {node}) < card S" by (intro card_Diff1_less)
    with Some show ?thesis by simp
  qed
  then show "((cells[node := (cells ! node)\<lparr>ttl_key := None, ttl_value := 0, ttl_next := None\<rparr>], ttl_next (cells ! node)), (cells, Some node))
               \<in> measure (walk_measure ttl_next)"
    by (simp only: in_measure m1 m2 cells'_def [symmetric])
qed

definition ttl_Stop :: "('k, 'v::zero) TTL \<Rightarrow> ('k, 'v) TTL" where
  "ttl_Stop l =
     (if ttl_stopped l \<noteq> 0 then l
      else l\<lparr>ttl_stopped := 1,
             ttl_stopCh_closed := True,
             ttl_cache := fmempty,
             ttl_cells := ttl_clear (ttl_zero_cached (ttl_cache l) (ttl_cells l)) (ttl_head l),
             ttl_head := None,
             ttl_tail := None\<rparr>)"


section \<open>TTL over a heap (the second engine of \<open>random.go\<close>)\<close>

text \<open>
  This engine keeps the items in a slice ordered by \<open>container/heap\<close> of the Go standard
  library. The slice holds pointers to the items the map also points to. The record and its
  operations carry the prefix \<open>ttlh\<close>; the source names the type \<open>TTL\<close> again.
\<close>

record ('k, 'v) ttlItem =
  ttlh_key :: "'k option"
  ttlh_value :: 'v
  ttlh_expiresAt :: "int option"

record ('k, 'v) TTLh =
  ttlh_cache :: "('k, nat) fmap"
  ttlh_heap :: "nat list"
  ttlh_ttl :: int
  ttlh_stopped :: "32 word"
  ttlh_stopCh_closed :: bool
  ttlh_cells :: "('k, 'v) ttlItem list"

definition NewTTLh :: "int \<Rightarrow> panic + ('k, 'v) TTLh" where
  "NewTTLh ttl =
     (if ttl \<le> 0 then Inl TTLNotPositive
      else Inr \<lparr>ttlh_cache = fmempty, ttlh_heap = [], ttlh_ttl = ttl,
                ttlh_stopped = 0, ttlh_stopCh_closed = False, ttlh_cells = []\<rparr>)"

definition ttlh_isStopped :: "('k, 'v) TTLh \<Rightarrow> bool" where
  "ttlh_isStopped l = (ttlh_stopped l = 1)"

text \<open>
  The methods of \<open>ttlHeap\<close>. \<open>Less\<close> is \<open>h[i].expiresAt.Before(*h[j].expiresAt)\<close>: it
  reads through both \<open>expiresAt\<close> pointers and panics when either is \<open>nil\<close>.
\<close>

definition ttlHeap_Len :: "nat list \<Rightarrow> nat" where
  "ttlHeap_Len h = length h"

definition ttlHeap_Less :: "('k, 'v) ttlItem list \<Rightarrow> nat list \<Rightarrow> nat \<Rightarrow> nat \<Rightarrow> panic + bool" where
  "ttlHeap_Less cells h i j =
     (if i < length h \<and> j < length h then
        (if h ! i < length cells \<and> h ! j < length cells then
           (case ttlh_expiresAt (cells ! (h ! i)) of
              None \<Rightarrow> Inl NilPointer
            | Some a \<Rightarrow>
                (case ttlh_expiresAt (cells ! (h ! j)) of
                   None \<Rightarrow> Inl NilPointer
                 | Some b \<Rightarrow> Inr (a < b)))
         else Inl NilPointer)
      else Inl IndexOutOfRange)"

definition ttlHeap_Swap :: "nat list \<Rightarrow> nat \<Rightarrow> nat \<Rightarrow> panic + nat list" where
  "ttlHeap_Swap h i j =
     (if i < length h \<and> j < length h then Inr (h[i := h ! j, j := h ! i])
      else Inl IndexOutOfRange)"

definition ttlHeap_Push :: "nat list \<Rightarrow> nat \<Rightarrow> nat list" where
  "ttlHeap_Push h item = h @ [item]"

definition ttlHeap_Pop :: "nat list \<Rightarrow> nat option \<times> nat list" where
  "ttlHeap_Pop h = (if length h = 0 then (None, h) else (Some (last h), butlast h))"

definition ttlHeap_Peek :: "nat list \<Rightarrow> nat option" where
  "ttlHeap_Peek h = (if length h > 0 then Some (h ! 0) else None)"

text \<open>
  \<open>heap.Push\<close> of \<open>container/heap\<close> is not part of the package; this is the standard
  library's code:
  \<^verbatim>\<open>
  func Push(h Interface, x any) { h.Push(x); up(h, h.Len()-1) }
  func up(h Interface, j int) {
      for {
          i := (j - 1) / 2 // parent
          if i == j || !h.Less(j, i) { break }
          h.Swap(i, j)
          j = i
      }
  }\<close>
  Go's integer division truncates towards zero, so the parent of \<open>0\<close> is \<open>0\<close>, as with the
  subtraction and division of \<open>nat\<close>.
\<close>

function heap_up :: "('k, 'v) ttlItem list \<Rightarrow> nat list \<Rightarrow> nat \<Rightarrow> panic + nat list" where
  "heap_up cells h j =
     (let i = (j - 1) div 2 in
      if i = j then Inr h
      else (case ttlHeap_Less cells h j i of
              Inl p \<Rightarrow> Inl p
            | Inr lt \<Rightarrow>
                if \<not> lt then Inr h
                else (case ttlHeap_Swap h i j of
                        Inl p \<Rightarrow> Inl p
                      | Inr h1 \<Rightarrow> heap_up cells h1 i)))"
  by pat_completeness auto
termination
proof (relation "measure (\<lambda>(cells, h, j). j)")
  show "wf (measure (\<lambda>(cells, h, j). j))" by simp
next
  fix cells :: "('k, 'v) ttlItem list" and h h1 :: "nat list" and j i :: nat
  assume "i = (j - 1) div 2" and "i \<noteq> j"
  then have "i < j" by arith
  then show "((cells, h1, i), (cells, h, j)) \<in> measure (\<lambda>(cells, h, j). j)" by simp
qed

declare heap_up.simps [simp del]

definition heap_Push :: "('k, 'v) ttlItem list \<Rightarrow> nat list \<Rightarrow> nat \<Rightarrow> panic + nat list" where
  "heap_Push cells h x = (let h1 = ttlHeap_Push h x in heap_up cells h1 (ttlHeap_Len h1 - 1))"

definition ttlh_get :: "('k, 'v::zero) TTLh \<Rightarrow> 'k \<Rightarrow> int \<Rightarrow> panic + (('v \<times> bool) \<times> ('k, 'v) TTLh)" where
  "ttlh_get l key now =
     (if ttlh_isStopped l then Inl CacheStopped
      else case fmlookup (ttlh_cache l) key of
             None \<Rightarrow> Inr ((0, False), l)
           | Some v \<Rightarrow>
               if v < length (ttlh_cells l) then
                 (case ttlh_expiresAt (ttlh_cells l ! v) of
                    None \<Rightarrow> Inl NilPointer
                  | Some e \<Rightarrow>
                      if e < now then Inr ((0, False), l)
                      else Inr ((ttlh_value (ttlh_cells l ! v), True), l))
               else Inl NilPointer)"

text \<open>
  \<open>set\<close> zeroes the item the map holds for the key, which stays in the heap slice, then
  allocates a fresh item, stores it in the map and pushes it on the heap.
\<close>

definition ttlh_zero :: "('k, 'v::zero) ttlItem" where
  "ttlh_zero = \<lparr>ttlh_key = None, ttlh_value = 0, ttlh_expiresAt = None\<rparr>"

definition ttlh_set :: "('k, 'v::zero) TTLh \<Rightarrow> 'k \<Rightarrow> 'v \<Rightarrow> int \<Rightarrow> panic + ('k, 'v) TTLh" where
  "ttlh_set l key val now =
     (if ttlh_isStopped l then Inl CacheStopped
      else
        (let cells1 = (case fmlookup (ttlh_cache l) key of
                         Some v \<Rightarrow> (ttlh_cells l)[v := ttlh_zero]
                       | None \<Rightarrow> ttlh_cells l);
             item = length cells1;
             cells2 = cells1 @ [\<lparr>ttlh_key = Some key, ttlh_value = val,
                                 ttlh_expiresAt = Some (now + ttlh_ttl l)\<rparr>];
             cache1 = fmupd key item (ttlh_cache l)
         in case heap_Push cells2 (ttlh_heap l) item of
              Inl p \<Rightarrow> Inl p
            | Inr h1 \<Rightarrow> Inr (l\<lparr>ttlh_cache := cache1, ttlh_cells := cells2, ttlh_heap := h1\<rparr>)))"

definition ttlh_Fetch ::
  "('k, 'v::zero) TTLh \<Rightarrow> 'k \<Rightarrow> ('v, 'e) FetchFunc \<Rightarrow> int \<Rightarrow>
   panic + (('v \<times> 'e option) \<times> ('k, 'v) TTLh)" where
  "ttlh_Fetch l key fn now =
     (if ttlh_isStopped l then Inl CacheStopped
      else case ttlh_get l key now of
             Inl p \<Rightarrow> Inl p
           | Inr ((v, ok), l1) \<Rightarrow>
               if ok then Inr ((v, None), l1)
               else (case fn () of
                       (v, Some err) \<Rightarrow> Inr ((0, Some err), l1)
                     | (v, None) \<Rightarrow>
                         (case ttlh_set l1 key v now of
                            Inl p \<Rightarrow> Inl p
                          | Inr l2 \<Rightarrow> Inr ((v, None), l2))))"

text \<open>
  \<open>Stop\<close> zeroes the items the map points to, then pops the heap slice with the method
  \<open>Pop\<close> until that returns \<open>nil\<close>.
\<close>

definition ttlh_zero_cached :: "('k, nat) fmap \<Rightarrow> ('k, 'v::zero) ttlItem list \<Rightarrow> ('k, 'v) ttlItem list" where
  "ttlh_zero_cached cache cells =
     map (\<lambda>(a, c). if a |\<in>| fmran cache then ttlh_zero else c) (zip [0..<length cells] cells)"

function ttlh_drain :: "nat list \<Rightarrow> nat list" where
  "ttlh_drain h = (case ttlHeap_Pop h of (None, h1) \<Rightarrow> h1 | (Some item, h1) \<Rightarrow> ttlh_drain h1)"
  by pat_completeness auto
termination
  by (relation "measure length") (auto simp: ttlHeap_Pop_def split: if_splits)

declare ttlh_drain.simps [simp del]

definition ttlh_Stop :: "('k, 'v::zero) TTLh \<Rightarrow> ('k, 'v) TTLh" where
  "ttlh_Stop l =
     (if ttlh_stopped l \<noteq> 0 then l
      else l\<lparr>ttlh_stopped := 1,
             ttlh_stopCh_closed := True,
             ttlh_cache := fmempty,
             ttlh_cells := ttlh_zero_cached (ttlh_cache l) (ttlh_cells l),
             ttlh_heap := ttlh_drain (ttlh_heap l)\<rparr>)"


section \<open>Keys that are not equal to themselves\<close>

text \<open>
  Go finds and deletes a map key by \<open>==\<close>. The engines above find a key of the type
  \<open>'k\<close> by equality; that is Go's map for every key type all of whose values are equal to
  themselves. A comparable type can have values that are not: the \<open>NaN\<close> of a
  floating-point type, alone or inside a struct, an array or an interface value. Under such
  a key \<open>k\<close> a map \<open>m\<close> behaves as follows: \<open>m[k]\<close> finds nothing, \<open>delete(m, k)\<close>
  deletes nothing, and \<open>m[k] = a\<close> adds an entry every time; \<open>len(m)\<close> counts that
  entry, and only \<open>range\<close> reaches it.

  The engines of this section are the four capacity-bounded engines once more, for any
  comparable key type. The predicate \<open>self\<close> tells the keys that are equal to themselves:
  \<open>self k\<close> is the value of \<open>k == k\<close>, and two keys are \<open>==\<close> when they are the same and
  \<open>self\<close> holds of them. A Go map is a pair: the finite map of the entries under the keys
  equal to themselves, and the list of what was entered under the other keys, in the order of
  entry.
\<close>

type_synonym ('k, 'a) gomap = "('k, 'a) fmap \<times> 'a list"

definition go_len :: "('k, 'a) gomap \<Rightarrow> int" where
  "go_len m = len (fst m) + int (length (snd m))"

definition go_lookup :: "('k \<Rightarrow> bool) \<Rightarrow> ('k, 'a) gomap \<Rightarrow> 'k \<Rightarrow> 'a option" where
  "go_lookup self m k = (if self k then fmlookup (fst m) k else None)"

definition go_delete :: "('k \<Rightarrow> bool) \<Rightarrow> ('k, 'a) gomap \<Rightarrow> 'k \<Rightarrow> ('k, 'a) gomap" where
  "go_delete self m k = (if self k then (fmdrop k (fst m), snd m) else m)"

definition go_assign :: "('k \<Rightarrow> bool) \<Rightarrow> ('k, 'a) gomap \<Rightarrow> 'k \<Rightarrow> 'a \<Rightarrow> ('k, 'a) gomap" where
  "go_assign self m k a = (if self k then (fmupd k a (fst m), snd m) else (fst m, snd m @ [a]))"

text \<open>
  The state of an engine is its record of the sections above together with the second part
  of its map: the field \<open>cache\<close> of the record holds the entries under the keys equal to
  themselves. The functions follow \<open>set\<close> of the source statement by statement, like the
  ones above; only the four map operations differ.
\<close>

type_synonym ('k, 'v) FIFO_any = "('k, 'v) FIFO \<times> nat list"

definition fifo_map :: "('k, 'v) FIFO_any \<Rightarrow> ('k, nat) gomap" where
  "fifo_map s = (fifo_cache (fst s), snd s)"

definition NewFIFO_any :: "int \<Rightarrow> panic + ('k, 'v) FIFO_any" where
  "NewFIFO_any capacity = (case NewFIFO capacity of Inl p \<Rightarrow> Inl p | Inr l \<Rightarrow> Inr (l, []))"

definition fifo_evict_any :: "('k \<Rightarrow> bool) \<Rightarrow> ('k, 'v::zero) FIFO_any \<Rightarrow> panic + ('k, 'v) FIFO_any" where
  "fifo_evict_any self s =
     (let l = fst s in
      if go_len (fifo_map s) \<ge> fifo_capacity l then
        (case fifo_head l of
           None \<Rightarrow> Inl NilPointer
         | Some head \<Rightarrow>
             if head < length (fifo_cells l) then
               (let next = fifo_next (fifo_cells l ! head) in
                case fifo_key (fifo_cells l ! head) of
                  None \<Rightarrow> Inl NilPointer
                | Some hk \<Rightarrow>
                    (let m1 = go_delete self (fifo_map s) hk in
                     Inr (l\<lparr>fifo_cache := fst m1,
                            fifo_cells := (fifo_cells l)[head := fifo_zero],
                            fifo_head := next\<rparr>, snd m1)))
             else Inl NilPointer)
      else Inr s)"

definition fifo_store_any :: "('k \<Rightarrow> bool) \<Rightarrow> ('k, 'v::zero) FIFO_any \<Rightarrow> 'k \<Rightarrow> 'v \<Rightarrow> ('k, 'v) FIFO_any" where
  "fifo_store_any self s key val =
     (let l = fst s in
      case go_lookup self (fifo_map s) key of
        Some node \<Rightarrow>
          (l\<lparr>fifo_cells := (fifo_cells l)[node := (fifo_cells l ! node)\<lparr>fifo_value := val\<rparr>]\<rparr>, snd s)
      | None \<Rightarrow>
          (let node = length (fifo_cells l);
               cells1 = fifo_cells l @ [\<lparr>fifo_next = None, fifo_key = Some key, fifo_value = 0\<rparr>];
               m1 = go_assign self (fifo_map s) key node;
               cells2 = (case fifo_tail l of
                          None \<Rightarrow> cells1
                        | Some t \<Rightarrow> cells1[t := (cells1 ! t)\<lparr>fifo_next := Some node\<rparr>]);
               head1 = (case fifo_head l of None \<Rightarrow> Some node | Some h \<Rightarrow> Some h)
           in (l\<lparr>fifo_cache := fst m1,
                 fifo_cells := cells2[node := (cells2 ! node)\<lparr>fifo_value := val\<rparr>],
                 fifo_tail := Some node,
                 fifo_head := head1\<rparr>, snd m1)))"

definition fifo_set_any ::
  "('k \<Rightarrow> bool) \<Rightarrow> ('k, 'v::zero) FIFO_any \<Rightarrow> 'k \<Rightarrow> 'v \<Rightarrow> panic + ('k, 'v) FIFO_any" where
  "fifo_set_any self s key val =
     (if fifo_isStopped (fst s) then Inl CacheStopped
      else case fifo_evict_any self s of
             Inl p \<Rightarrow> Inl p
           | Inr s1 \<Rightarrow> Inr (fifo_store_any self s1 key val))"

fun fifo_sets_any ::
  "('k \<Rightarrow> bool) \<Rightarrow> ('k, 'v::zero) FIFO_any \<Rightarrow> ('k \<times> 'v) list \<Rightarrow> panic + ('k, 'v) FIFO_any" where
  "fifo_sets_any self s [] = Inr s"
| "fifo_sets_any self s ((k, v) # kvs) =
     (case fifo_set_any self s k v of Inl p \<Rightarrow> Inl p | Inr s1 \<Rightarrow> fifo_sets_any self s1 kvs)"

type_synonym ('k, 'v) LIFO_any = "('k, 'v) LIFO \<times> nat list"

definition lifo_map :: "('k, 'v) LIFO_any \<Rightarrow> ('k, nat) gomap" where
  "lifo_map s = (lifo_cache (fst s), snd s)"

definition NewLIFO_any :: "int \<Rightarrow> panic + ('k, 'v) LIFO_any" where
  "NewLIFO_any capacity = (case NewLIFO capacity of Inl p \<Rightarrow> Inl p | Inr l \<Rightarrow> Inr (l, []))"

definition lifo_evict_any :: "('k \<Rightarrow> bool) \<Rightarrow> ('k, 'v::zero) LIFO_any \<Rightarrow> panic + ('k, 'v) LIFO_any" where
  "lifo_evict_any self s =
     (let l = fst s in
      if go_len (lifo_map s) \<ge> lifo_capacity l then
        (case lifo_head l of
           None \<Rightarrow> Inl NilPointer
         | Some head \<Rightarrow>
             if head < length (lifo_cells l) then
               (let next = lifo_next (lifo_cells l ! head) in
                case lifo_key (lifo_cells l ! head) of
                  None \<Rightarrow> Inl NilPointer
                | Some hk \<Rightarrow>
                    (let m1 = go_delete self (lifo_map s) hk in
                     Inr (l\<lparr>lifo_cache := fst m1,
                            lifo_cells := (lifo_cells l)[head := lifo_zero],
                            lifo_head := next\<rparr>, snd m1)))
             else Inl NilPointer)
      else Inr s)"

definition lifo_store_any :: "('k \<Rightarrow> bool) \<Rightarrow> ('k, 'v::zero) LIFO_any \<Rightarrow> 'k \<Rightarrow> 'v \<Rightarrow> ('k, 'v) LIFO_any" where
  "lifo_store_any self s key val =
     (let l = fst s in
      case go_lookup self (lifo_map s) key of
        Some node \<Rightarrow>
          (l\<lparr>lifo_cells := (lifo_cells l)[node := (lifo_cells l ! node)\<lparr>lifo_value := val\<rparr>]\<rparr>, snd s)
      | None \<Rightarrow>
          (let node = length (lifo_cells l);
               cells1 = lifo_cells l @ [\<lparr>lifo_next = None, lifo_key = Some key, lifo_value = 0\<rparr>];
               m1 = go_assign self (lifo_map s) key node;
               cells2 = cells1[node := (cells1 ! node)\<lparr>lifo_next := lifo_head l\<rparr>]
           in (l\<lparr>lifo_cache := fst m1,
                 lifo_cells := cells2[node := (cells2 ! node)\<lparr>lifo_value := val\<rparr>],
                 lifo_head := Some node\<rparr>, snd m1)))"

definition lifo_set_any ::
  "('k \<Rightarrow> bool) \<Rightarrow> ('k, 'v::zero) LIFO_any \<Rightarrow> 'k \<Rightarrow> 'v \<Rightarrow> panic + ('k, 'v) LIFO_any" where
  "lifo_set_any self s key val =
     (if lifo_isStopped (fst s) then Inl CacheStopped
      else case lifo_evict_any self s of
             Inl p \<Rightarrow> Inl p
           | Inr s1 \<Rightarrow> Inr (lifo_store_any self s1 key val))"

fun lifo_sets_any ::
  "('k \<Rightarrow> bool) \<Rightarrow> ('k, 'v::zero) LIFO_any \<Rightarrow> ('k \<times> 'v) list \<Rightarrow> panic + ('k, 'v) LIFO_any" where
  "lifo_sets_any self s [] = Inr s"
| "lifo_sets_any self s ((k, v) # kvs) =
     (case lifo_set_any self s k v of Inl p \<Rightarrow> Inl p | Inr s1 \<Rightarrow> lifo_sets_any self s1 kvs)"

type_synonym ('k, 'v) LRU_any = "('k, 'v) LRU \<times> nat list"

definition lru_map :: "('k, 'v) LRU_any \<Rightarrow> ('k, nat) gomap" where
  "lru_map s = (lru_cache (fst s), snd s)"

definition NewLRU_any :: "int \<Rightarrow> panic + ('k, 'v) LRU_any" where
  "NewLRU_any capacity = (case NewLRU capacity of Inl p \<Rightarrow> Inl p | Inr l \<Rightarrow> Inr (l, []))"

definition lru_evict_any :: "('k \<Rightarrow> bool) \<Rightarrow> ('k, 'v::zero) LRU_any \<Rightarrow> panic + ('k, 'v) LRU_any" where
  "lru_evict_any self s =
     (let l = fst s in
      if go_len (lru_map s) \<ge> lru_capacity l then
        (case lru_head l of
           None \<Rightarrow> Inl NilPointer
         | Some head \<Rightarrow>
             if head < length (lru_cells l) then
               (let next = lru_next (lru_cells l ! head) in
                case lru_key (lru_cells l ! head) of
                  None \<Rightarrow> Inl NilPointer
                | Some hk \<Rightarrow>
                    (let m1 = go_delete self (lru_map s) hk;
                         cells1 = (lru_cells l)[head := lru_zero];
                         cells2 = (case next of
                                     None \<Rightarrow> cells1
                                   | Some n \<Rightarrow> cells1[n := (cells1 ! n)\<lparr>lru_prev := None\<rparr>])
                     in Inr (l\<lparr>lru_cache := fst m1,
                               lru_cells := cells2,
                               lru_head := next\<rparr>, snd m1)))
             else Inl NilPointer)
      else Inr s)"

definition lru_store_any ::
  "('k \<Rightarrow> bool) \<Rightarrow> ('k, 'v::zero) LRU_any \<Rightarrow> 'k \<Rightarrow> 'v \<Rightarrow> panic + ('k, 'v) LRU_any" where
  "lru_store_any self s key val =
     (let l = fst s in
      case go_lookup self (lru_map s) key of
        Some node \<Rightarrow>
          if node < length (lru_cells l)
          then Inr (lru_moveToTail
                 (l\<lparr>lru_cells := (lru_cells l)[node := (lru_cells l ! node)\<lparr>lru_value := val\<rparr>]\<rparr>) node,
                 snd s)
          else Inl NilPointer
      | None \<Rightarrow>
          (let node = length (lru_cells l);
               cells1 = lru_cells l @ [\<lparr>lru_prev = None, lru_next = None, lru_key = Some key, lru_value = 0\<rparr>];
               m1 = go_assign self (lru_map s) key node
           in Inr (lru_moveToTail
                 (l\<lparr>lru_cache := fst m1,
                    lru_cells := cells1[node := (cells1 ! node)\<lparr>lru_value := val\<rparr>]\<rparr>) node,
                 snd m1)))"

definition lru_set_any ::
  "('k \<Rightarrow> bool) \<Rightarrow> ('k, 'v::zero) LRU_any \<Rightarrow> 'k \<Rightarrow> 'v \<Rightarrow> panic + ('k, 'v) LRU_any" where
  "lru_set_any self s key val =
     (if lru_isStopped (fst s) then Inl CacheStopped
      else case lru_evict_any self s of
             Inl p \<Rightarrow> Inl p
           | Inr s1 \<Rightarrow> lru_store_any self s1 key val)"

fun lru_sets_any ::
  "('k \<Rightarrow> bool) \<Rightarrow> ('k, 'v::zero) LRU_any \<Rightarrow> ('k \<times> 'v) list \<Rightarrow> panic + ('k, 'v) LRU_any" where
  "lru_sets_any self s [] = Inr s"
| "lru_sets_any self s ((k, v) # kvs) =
     (case lru_set_any self s k v of Inl p \<Rightarrow> Inl p | Inr s1 \<Rightarrow> lru_sets_any self s1 kvs)"

text \<open>
  The random engine. At capacity \<open>range\<close> yields any entry of the map first: under a key
  equal to itself, which \<open>delete\<close> then removes (rule \<open>evict\<close>), or under a key that is
  not, where \<open>delete\<close> removes nothing (rule \<open>evict_unequal\<close>).
\<close>

type_synonym ('k, 'v) Random_any = "('k, 'v) Random \<times> 'v list"

definition random_map :: "('k, 'v) Random_any \<Rightarrow> ('k, 'v) gomap" where
  "random_map s = (random_cache (fst s), snd s)"

definition random_assign :: "('k \<Rightarrow> bool) \<Rightarrow> ('k, 'v) gomap \<Rightarrow> ('k, 'v) Random \<Rightarrow> 'k \<Rightarrow> 'v \<Rightarrow> ('k, 'v) Random_any" where
  "random_assign self m l key val =
     (let m1 = go_assign self m key val in (l\<lparr>random_cache := fst m1\<rparr>, snd m1))"

definition NewRandom_any :: "int \<Rightarrow> panic + ('k, 'v) Random_any" where
  "NewRandom_any capacity = (case NewRandom capacity of Inl p \<Rightarrow> Inl p | Inr l \<Rightarrow> Inr (l, []))"

inductive random_set_any ::
  "('k \<Rightarrow> bool) \<Rightarrow> ('k, 'v) Random_any \<Rightarrow> 'k \<Rightarrow> 'v \<Rightarrow> panic + ('k, 'v) Random_any \<Rightarrow> bool" where
  stopped:
    "random_isStopped (fst s) \<Longrightarrow> random_set_any self s key val (Inl CacheStopped)"
| room:
    "\<not> random_isStopped (fst s) \<Longrightarrow> go_len (random_map s) < random_capacity (fst s) \<Longrightarrow>
     random_set_any self s key val (Inr (random_assign self (random_map s) (fst s) key val))"
| evict:
    "\<not> random_isStopped (fst s) \<Longrightarrow> go_len (random_map s) \<ge> random_capacity (fst s) \<Longrightarrow>
     k |\<in>| fmdom (random_cache (fst s)) \<Longrightarrow>
     random_set_any self s key val
       (Inr (random_assign self (fmdrop k (random_cache (fst s)), snd s) (fst s) key val))"
| evict_unequal:
    "\<not> random_isStopped (fst s) \<Longrightarrow> go_len (random_map s) \<ge> random_capacity (fst s) \<Longrightarrow>
     snd s \<noteq> [] \<Longrightarrow>
     random_set_any self s key val (Inr (random_assign self (random_map s) (fst s) key val))"
| nothing:
    "\<not> random_isStopped (fst s) \<Longrightarrow> go_len (random_map s) \<ge> random_capacity (fst s) \<Longrightarrow>
     fmdom (random_cache (fst s)) = {||} \<Longrightarrow> snd s = [] \<Longrightarrow>
     random_set_any self s key val (Inr (random_assign self (random_map s) (fst s) key val))"

inductive random_sets_any ::
  "('k \<Rightarrow> bool) \<Rightarrow> ('k, 'v) Random_any \<Rightarrow> ('k \<times> 'v) list \<Rightarrow> panic + ('k, 'v) Random_any \<Rightarrow> bool" where
  over: "random_sets_any self s [] (Inr s)"
| halt: "random_set_any self s k v (Inl p) \<Longrightarrow> random_sets_any self s ((k, v) # kvs) (Inl p)"
| step: "random_set_any self s k v (Inr s1) \<Longrightarrow> random_sets_any self s1 kvs r \<Longrightarrow>
         random_sets_any self s ((k, v) # kvs) r"

text \<open>
  The keys of the example that follows are of type \<open>float64\<close>. Of its values the model
  keeps what \<open>==\<close> tells apart: \<open>NaN\<close>, which is equal to no value, itself included, and
  the numbers (here the whole ones), each equal to itself only.
\<close>

datatype float64 = NaN | Num int

fun float64_self :: "float64 \<Rightarrow> bool" where
  "float64_self NaN = False"
| "float64_self (Num x) = True"

text \<open>
  The states of the example: a fresh cache of capacity 1 with keys of type \<open>float64\<close>, and
  the state after \<open>Set(NaN, 1)\<close>, \<open>Set(NaN, 2)\<close> on it. In the list engines the map then
  holds two entries, one for the zeroed cell 0 and one for cell 1.
\<close>

definition fifo_nan0 :: "(float64, int) FIFO_any" where
  "fifo_nan0 =
     (\<lparr>fifo_cache = fmempty, fifo_head = None, fifo_tail = None, fifo_capacity = 1,
       fifo_stopped = 0, fifo_cells = []\<rparr>, [])"

definition fifo_nan2 :: "(float64, int) FIFO_any" where
  "fifo_nan2 =
     (\<lparr>fifo_cache = fmempty, fifo_head = Some 1, fifo_tail = Some 1, fifo_capacity = 1,
       fifo_stopped = 0,
       fifo_cells = [\<lparr>fifo_next = Some 1, fifo_key = None, fifo_value = 0\<rparr>,
                     \<lparr>fifo_next = None, fifo_key = Some NaN, fifo_value = 2\<rparr>]\<rparr>, [0, 1])"

definition lifo_nan0 :: "(float64, int) LIFO_any" where
  "lifo_nan0 =
     (\<lparr>lifo_cache = fmempty, lifo_head = None, lifo_capacity = 1, lifo_stopped = 0,
       lifo_cells = []\<rparr>, [])"

definition lifo_nan2 :: "(float64, int) LIFO_any" where
  "lifo_nan2 =
     (\<lparr>lifo_cache = fmempty, lifo_head = Some 1, lifo_capacity = 1, lifo_stopped = 0,
       lifo_cells = [\<lparr>lifo_next = None, lifo_key = None, lifo_value = 0\<rparr>,
                     \<lparr>lifo_next = None, lifo_key = Some NaN, lifo_value = 2\<rparr>]\<rparr>, [0, 1])"

definition lru_nan0 :: "(float64, int) LRU_any" where
  "lru_nan0 =
     (\<lparr>lru_cache = fmempty, lru_head = None, lru_tail = None, lru_capacity = 1,
       lru_stopped = 0, lru_cells = []\<rparr>, [])"

definition lru_nan2 :: "(float64, int) LRU_any" where
  "lru_nan2 =
     (\<lparr>lru_cache = fmempty, lru_head = Some 1, lru_tail = Some 1, lru_capacity = 1,
       lru_stopped = 0,
       lru_cells = [\<lparr>lru_prev = None, lru_next = Some 1, lru_key = None, lru_value = 0\<rparr>,
                    \<lparr>lru_prev = Some 0, lru_next = None, lru_key = Some NaN, lru_value = 2\<rparr>]\<rparr>,
      [0, 1])"

definition random_nan0 :: "(float64, int) Random_any" where
  "random_nan0 = (\<lparr>random_cache = fmempty, random_capacity = 1, random_stopped = 0\<rparr>, [])"

definition random_nan2 :: "(float64, int) Random_any" where
  "random_nan2 = (\<lparr>random_cache = fmempty, random_capacity = 1, random_stopped = 0\<rparr>, [1, 2])"

text \<open>The keys that the cells of an arena hold are all equal to themselves.\<close>

definition keys_self :: "('k \<Rightarrow> bool) \<Rightarrow> ('c \<Rightarrow> 'k option) \<Rightarrow> 'c list \<Rightarrow> bool" where
  "keys_self self key cells \<longleftrightarrow> (\<forall>c\<in>set cells. \<forall>k. key c = Some k \<longrightarrow> self k)"


section \<open>Lists in the arena\<close>

text \<open>
  \<open>path nxt cells p xs q\<close>: following the links \<open>nxt\<close> from the pointer \<open>p\<close> visits the
  cells \<open>xs\<close>, in this order, and arrives at \<open>q\<close>. \<open>backs prv cells p xs\<close>: the back link
  of the first cell of \<open>xs\<close> is \<open>p\<close> and the back link of every other one is its predecessor
  in \<open>xs\<close>.
\<close>

primrec path :: "('n \<Rightarrow> nat option) \<Rightarrow> 'n list \<Rightarrow> nat option \<Rightarrow> nat list \<Rightarrow> nat option \<Rightarrow> bool" where
  "path nxt cells p [] q \<longleftrightarrow> p = q"
| "path nxt cells p (a # as) q \<longleftrightarrow>
     p = Some a \<and> a < length cells \<and> path nxt cells (nxt (cells ! a)) as q"

primrec backs :: "('n \<Rightarrow> nat option) \<Rightarrow> 'n list \<Rightarrow> nat option \<Rightarrow> nat list \<Rightarrow> bool" where
  "backs prv cells p [] \<longleftrightarrow> True"
| "backs prv cells p (a # as) \<longleftrightarrow> prv (cells ! a) = p \<and> backs prv cells (Some a) as"

text \<open>
  The state of a list engine is in order for the list \<open>xs\<close> of cells when: the capacity is
  positive and bounds the size of the map; the links from the head run through \<open>xs\<close> to
  \<open>nil\<close> without repetition; every cell of \<open>xs\<close> holds a key that the map sends to that
  cell, and the map points only to cells of \<open>xs\<close>, each under its own key; the tail, when the
  list is not empty, is its last cell. When the list is empty the tail may still point to
  the cell evicted last (the eviction block does not reset it), and so may the back link of
  the head of the LRU list; such a pointer leads to a cell of the arena outside the list.
\<close>

definition fifo_inv :: "('k, 'v) FIFO \<Rightarrow> nat list \<Rightarrow> bool" where
  "fifo_inv l xs \<longleftrightarrow>
     0 < fifo_capacity l \<and> len (fifo_cache l) \<le> fifo_capacity l
     \<and> path fifo_next (fifo_cells l) (fifo_head l) xs None \<and> distinct xs
     \<and> (\<forall>a\<in>set xs. \<exists>k. fifo_key (fifo_cells l ! a) = Some k \<and> fmlookup (fifo_cache l) k = Some a)
     \<and> (\<forall>k a. fmlookup (fifo_cache l) k = Some a \<longrightarrow>
           a \<in> set xs \<and> fifo_key (fifo_cells l ! a) = Some k)
     \<and> (xs \<noteq> [] \<longrightarrow> fifo_tail l = Some (last xs))
     \<and> (\<forall>t. fifo_tail l = Some t \<longrightarrow> t < length (fifo_cells l))"

definition lifo_inv :: "('k, 'v) LIFO \<Rightarrow> nat list \<Rightarrow> bool" where
  "lifo_inv l xs \<longleftrightarrow>
     0 < lifo_capacity l \<and> len (lifo_cache l) \<le> lifo_capacity l
     \<and> path lifo_next (lifo_cells l) (lifo_head l) xs None \<and> distinct xs
     \<and> (\<forall>a\<in>set xs. \<exists>k. lifo_key (lifo_cells l ! a) = Some k \<and> fmlookup (lifo_cache l) k = Some a)
     \<and> (\<forall>k a. fmlookup (lifo_cache l) k = Some a \<longrightarrow>
           a \<in> set xs \<and> lifo_key (lifo_cells l ! a) = Some k)"

definition lru_inv :: "('k, 'v) LRU \<Rightarrow> nat list \<Rightarrow> bool" where
  "lru_inv l xs \<longleftrightarrow>
     0 < lru_capacity l \<and> len (lru_cache l) \<le> lru_capacity l
     \<and> path lru_next (lru_cells l) (lru_head l) xs None \<and> distinct xs
     \<and> (\<exists>p0. backs lru_prev (lru_cells l) p0 xs
               \<and> (\<forall>p. p0 = Some p \<longrightarrow> p < length (lru_cells l) \<and> p \<notin> set xs))
     \<and> (\<forall>a\<in>set xs. \<exists>k. lru_key (lru_cells l ! a) = Some k \<and> fmlookup (lru_cache l) k = Some a)
     \<and> (\<forall>k a. fmlookup (lru_cache l) k = Some a \<longrightarrow>
           a \<in> set xs \<and> lru_key (lru_cells l ! a) = Some k)
     \<and> (xs \<noteq> [] \<longrightarrow> lru_tail l = Some (last xs))
     \<and> (\<forall>t. lru_tail l = Some t \<longrightarrow> t < length (lru_cells l))"

text \<open>For the random engine: positive capacity, size within capacity, not stopped.\<close>

definition random_inv :: "('k, 'v) Random \<Rightarrow> bool" where
  "random_inv l \<longleftrightarrow>
     0 < random_capacity l \<and> len (random_cache l) \<le> random_capacity l \<and> \<not> random_isStopped l"


section \<open>Observations and example states\<close>

text \<open>The key stored in the cell a pointer leads to, \<open>None\<close> for \<open>nil\<close>.\<close>

definition fifo_key_at :: "('k, 'v) FIFO \<Rightarrow> nat option \<Rightarrow> 'k option" where
  "fifo_key_at l p = (case p of None \<Rightarrow> None | Some a \<Rightarrow> fifo_key (fifo_cells l ! a))"

definition lifo_key_at :: "('k, 'v) LIFO \<Rightarrow> nat option \<Rightarrow> 'k option" where
  "lifo_key_at l p = (case p of None \<Rightarrow> None | Some a \<Rightarrow> lifo_key (lifo_cells l ! a))"

definition lru_key_at :: "('k, 'v) LRU \<Rightarrow> nat option \<Rightarrow> 'k option" where
  "lru_key_at l p = (case p of None \<Rightarrow> None | Some a \<Rightarrow> lru_key (lru_cells l ! a))"

text \<open>
  Every pointer the map holds leads to a cell of the arena; for the TTL engines that cell
  also carries an expiry. Go keeps the first by construction; \<open>set\<close> of both TTL engines
  keeps the second, since the map only ever points to a cell it has just stamped.
\<close>

definition fifo_indexed :: "('k, 'v) FIFO \<Rightarrow> bool" where
  "fifo_indexed l \<longleftrightarrow>
     (\<forall>k a. fmlookup (fifo_cache l) k = Some a \<longrightarrow> a < length (fifo_cells l))"

definition lifo_indexed :: "('k, 'v) LIFO \<Rightarrow> bool" where
  "lifo_indexed l \<longleftrightarrow>
     (\<forall>k a. fmlookup (lifo_cache l) k = Some a \<longrightarrow> a < length (lifo_cells l))"

definition ttl_indexed :: "('k, 'v) TTL \<Rightarrow> bool" where
  "ttl_indexed l \<longleftrightarrow>
     (\<forall>k a. fmlookup (ttl_cache l) k = Some a \<longrightarrow>
        a < length (ttl_cells l) \<and> ttl_expiresAt (ttl_cells l ! a) \<noteq> None)"

definition ttlh_indexed :: "('k, 'v) TTLh \<Rightarrow> bool" where
  "ttlh_indexed l \<longleftrightarrow>
     (\<forall>k a. fmlookup (ttlh_cache l) k = Some a \<longrightarrow>
        a < length (ttlh_cells l) \<and> ttlh_expiresAt (ttlh_cells l ! a) \<noteq> None)"

text \<open>
  One state of every engine, with string keys and integer values: the state after
  \<open>Set("a", 1)\<close> on a fresh cache of capacity 2, or of TTL 10 with the clock at 0.
\<close>

definition fifo_example :: "(string, int) FIFO" where
  "fifo_example =
     \<lparr>fifo_cache = fmupd ''a'' 0 fmempty, fifo_head = Some 0, fifo_tail = Some 0,
      fifo_capacity = 2, fifo_stopped = 0,
      fifo_cells = [\<lparr>fifo_next = None, fifo_key = Some ''a'', fifo_value = 1\<rparr>]\<rparr>"

definition lifo_example :: "(string, int) LIFO" where
  "lifo_example =
     \<lparr>lifo_cache = fmupd ''a'' 0 fmempty, lifo_head = Some 0,
      lifo_capacity = 2, lifo_stopped = 0,
      lifo_cells = [\<lparr>lifo_next = None, lifo_key = Some ''a'', lifo_value = 1\<rparr>]\<rparr>"

definition lru_example :: "(string, int) LRU" where
  "lru_example =
     \<lparr>lru_cache = fmupd ''a'' 0 fmempty, lru_head = Some 0, lru_tail = Some 0,
      lru_capacity = 2, lru_stopped = 0,
      lru_cells = [\<lparr>lru_prev = None, lru_next = None, lru_key = Some ''a'', lru_value = 1\<rparr>]\<rparr>"

definition random_example :: "(string, int) Random" where
  "random_example =
     \<lparr>random_cache = fmupd ''a'' 1 fmempty, random_capacity = 2, random_stopped = 0\<rparr>"

definition ttl_example :: "(string, int) TTL" where
  "ttl_example =
     \<lparr>ttl_cache = fmupd ''a'' 0 fmempty, ttl_head = Some 0, ttl_tail = Some 0, ttl_ttl = 10,
      ttl_stopped = 0, ttl_stopCh_closed = False,
      ttl_cells = [\<lparr>ttl_next = None, ttl_key = Some ''a'', ttl_value = 1,
                    ttl_expiresAt = Some 10\<rparr>]\<rparr>"

definition ttlh_example :: "(string, int) TTLh" where
  "ttlh_example =
     \<lparr>ttlh_cache = fmupd ''a'' 0 fmempty, ttlh_heap = [0], ttlh_ttl = 10,
      ttlh_stopped = 0, ttlh_stopCh_closed = False,
      ttlh_cells = [\<lparr>ttlh_key = Some ''a'', ttlh_value = 1, ttlh_expiresAt = Some 10\<rparr>]\<rparr>"

text \<open>
  The LRU state after \<open>Set("a", 1)\<close>, \<open>Set("b", 2)\<close>, \<open>Set("c", 3)\<close> on a fresh cache
  of capacity 3.
\<close>

definition lru_abc :: "(string, int) LRU" where
  "lru_abc =
     \<lparr>lru_cache = fmupd ''c'' 2 (fmupd ''b'' 1 (fmupd ''a'' 0 fmempty)),
      lru_head = Some 0, lru_tail = Some 2, lru_capacity = 3, lru_stopped = 0,
      lru_cells = [\<lparr>lru_prev = None, lru_next = Some 1, lru_key = Some ''a'', lru_value = 1\<rparr>,
                   \<lparr>lru_prev = Some 0, lru_next = Some 2, lru_key = Some ''b'', lru_value = 2\<rparr>,
                   \<lparr>lru_prev = Some 1, lru_next = None, lru_key = Some ''c'', lru_value = 3\<rparr>]\<rparr>"

text \<open>The compute function of the examples: it fails with the error \<open>"boom"\<close>.\<close>

definition failing :: "(int, string) FetchFunc" where
  "failing = (\<lambda>_. (7, Some ''boom''))"


section \<open>Evaluation\<close>

lemma len_fmempty [simp]: "len fmempty = 0"
  by (simp add: len_def)

lemma len_fmupd [simp]: "len (fmupd k a m) = (if k |\<in>| fmdom m then len m else len m + 1)"
  by (simp add: len_def fcard_finsert_if)

lemma len_fmdrop [simp]: "len (fmdrop k m) = (if k |\<in>| fmdom m then len m - 1 else len m)"
proof (cases "k |\<in>| fmdom m")
  case True
  then have "fmdom m \<noteq> {||}" by auto
  then have "1 \<le> fcard (fmdom m)"
    using fcard_0_eq [of "fmdom m"] by (simp only: One_nat_def Suc_le_eq neq0_conv [symmetric]) simp
  with True show ?thesis
    by (simp add: len_def fcard_fminus_fsingleton_if of_nat_diff del: fcard_0_eq)
next
  case False
  then show ?thesis by (simp add: len_def fcard_fminus_fsingleton_if)
qed

lemmas fifo_defs = NewFIFO_def fifo_set_def fifo_isStopped_def fifo_evict_def fifo_store_def
  fifo_get_def fifo_zero_def fifo_key_at_def Let_def

lemmas lifo_defs = NewLIFO_def lifo_set_def lifo_isStopped_def lifo_evict_def lifo_store_def
  lifo_get_def lifo_zero_def lifo_key_at_def Let_def

lemmas lru_defs = NewLRU_def lru_set_def lru_isStopped_def lru_evict_def lru_store_def
  lru_get_def lru_zero_def lru_moveToTail_def lru_key_at_def Let_def

lemmas ttl_defs = NewTTL_def ttl_set_def ttl_isStopped_def ttl_get_def Let_def

lemmas ttlh_defs = NewTTLh_def ttlh_set_def ttlh_isStopped_def ttlh_get_def ttlh_zero_def
  heap_Push_def heap_up.simps ttlHeap_Push_def ttlHeap_Len_def ttlHeap_Less_def ttlHeap_Swap_def
  Let_def

lemma lru_moveToTail_tail: "lru_tail (lru_moveToTail l node) = Some node"
  by (simp add: lru_moveToTail_def Let_def)

lemma lru_moveToTail_cache: "lru_cache (lru_moveToTail l node) = lru_cache l"
  by (simp add: lru_moveToTail_def Let_def)

lemma lru_moveToTail_flags:
  "lru_capacity (lru_moveToTail l node) = lru_capacity l"
  "lru_stopped (lru_moveToTail l node) = lru_stopped l"
  by (simp_all add: lru_moveToTail_def Let_def)

text \<open>The example states are what the engines produce.\<close>

lemma examples_reached:
  "\<exists>l0. NewFIFO 2 = Inr l0 \<and> fifo_set l0 ''a'' 1 = Inr fifo_example"
  "\<exists>l0. NewLIFO 2 = Inr l0 \<and> lifo_set l0 ''a'' 1 = Inr lifo_example"
  "\<exists>l0. NewLRU 2 = Inr l0 \<and> lru_set l0 ''a'' 1 = Inr lru_example"
  "\<exists>l0. NewRandom 2 = Inr l0 \<and> random_set l0 ''a'' 1 (Inr random_example)"
  "\<exists>l0. NewTTL 10 = Inr l0 \<and> ttl_set l0 ''a'' 1 0 = Inr ttl_example"
  "\<exists>l0. NewTTLh 10 = Inr l0 \<and> ttlh_set l0 ''a'' 1 0 = Inr ttlh_example"
proof -
  show "\<exists>l0. NewFIFO 2 = Inr l0 \<and> fifo_set l0 ''a'' 1 = Inr fifo_example"
    by (simp add: fifo_defs fifo_example_def)
  show "\<exists>l0. NewLIFO 2 = Inr l0 \<and> lifo_set l0 ''a'' 1 = Inr lifo_example"
    by (simp add: lifo_defs lifo_example_def)
  show "\<exists>l0. NewLRU 2 = Inr l0 \<and> lru_set l0 ''a'' 1 = Inr lru_example"
    by (simp add: lru_defs lru_example_def)
  have "random_set \<lparr>random_cache = fmempty, random_capacity = 2, random_stopped = 0\<rparr> ''a'' (1::int)
          (Inr (\<lparr>random_cache = fmempty, random_capacity = 2, random_stopped = 0\<rparr>
                  \<lparr>random_cache := fmupd ''a'' 1
                     (random_cache \<lparr>random_cache = fmempty, random_capacity = 2, random_stopped = 0\<rparr>)\<rparr>))"
    by (rule random_set.room) (simp_all add: random_isStopped_def)
  then show "\<exists>l0. NewRandom 2 = Inr l0 \<and> random_set l0 ''a'' 1 (Inr random_example)"
    by (simp add: NewRandom_def random_example_def)
  show "\<exists>l0. NewTTL 10 = Inr l0 \<and> ttl_set l0 ''a'' 1 0 = Inr ttl_example"
    by (simp add: ttl_defs ttl_example_def)
  show "\<exists>l0. NewTTLh 10 = Inr l0 \<and> ttlh_set l0 ''a'' 1 0 = Inr ttlh_example"
    by (simp add: ttlh_defs ttlh_example_def)
qed


section \<open>Eviction order of LIFO\<close>




section \<open>Overwriting a key\<close>

text \<open>Below capacity, \<open>set\<close> of a key that is present writes the value of its cell and nothing else.\<close>

lemma fifo_overwrite_below_capacity:
  assumes "\<not> fifo_isStopped l" and "len (fifo_cache l) < fifo_capacity l"
    and "fmlookup (fifo_cache l) key = Some node"
  shows "fifo_set l key val =
           Inr (l\<lparr>fifo_cells := (fifo_cells l)[node := (fifo_cells l ! node)\<lparr>fifo_value := val\<rparr>]\<rparr>)"
  using assms by (simp add: fifo_set_def fifo_evict_def fifo_store_def)

lemma lifo_overwrite_below_capacity:
  assumes "\<not> lifo_isStopped l" and "len (lifo_cache l) < lifo_capacity l"
    and "fmlookup (lifo_cache l) key = Some node"
  shows "lifo_set l key val =
           Inr (l\<lparr>lifo_cells := (lifo_cells l)[node := (lifo_cells l ! node)\<lparr>lifo_value := val\<rparr>]\<rparr>)"
  using assms by (simp add: lifo_set_def lifo_evict_def lifo_store_def)

text \<open>
  C1. The claim: in a FIFO or LIFO cache, \<open>Set\<close> of a key that is present overwrites the
  value only; no entry is evicted and no position changes, also at capacity. The code runs
  the eviction block of \<open>set\<close> before it looks the key up. Evaluated at capacity 2 after
  \<open>Set("a", 1)\<close>, \<open>Set("b", 2)\<close>:
  \<^item> FIFO, \<open>Set("b", 3)\<close>: \<open>"a"\<close> is evicted;
  \<^item> FIFO, \<open>Set("a", 3)\<close>: \<open>"a"\<close> moves from the head to the tail (its cell is evicted
    and a new one appended);
  \<^item> LIFO, \<open>Set("a", 3)\<close>: \<open>"b"\<close> is evicted.
\<close>

theorem overwrite_at_capacity_evicts:
  "(\<exists>l0 l2 l3. NewFIFO 2 = Inr l0
      \<and> fifo_sets l0 [(''a'', 1::int), (''b'', 2)] = Inr l2
      \<and> fifo_get l2 ''a'' = Inr ((1, True), l2)
      \<and> fifo_set l2 ''b'' 3 = Inr l3
      \<and> fifo_get l3 ''a'' = Inr ((0, False), l3)
      \<and> fifo_get l3 ''b'' = Inr ((3, True), l3))
   \<and> (\<exists>l0 l2 l3. NewFIFO 2 = Inr l0
      \<and> fifo_sets l0 [(''a'', 1::int), (''b'', 2)] = Inr l2
      \<and> fifo_key_at l2 (fifo_head l2) = Some ''a''
      \<and> fifo_key_at l2 (fifo_tail l2) = Some ''b''
      \<and> fifo_set l2 ''a'' 3 = Inr l3
      \<and> fifo_key_at l3 (fifo_head l3) = Some ''b''
      \<and> fifo_key_at l3 (fifo_tail l3) = Some ''a'')
   \<and> (\<exists>l0 l2 l3. NewLIFO 2 = Inr l0
      \<and> lifo_sets l0 [(''a'', 1::int), (''b'', 2)] = Inr l2
      \<and> lifo_get l2 ''b'' = Inr ((2, True), l2)
      \<and> lifo_set l2 ''a'' 3 = Inr l3
      \<and> lifo_get l3 ''b'' = Inr ((0, False), l3)
      \<and> lifo_get l3 ''a'' = Inr ((3, True), l3))"
  by (simp add: fifo_defs lifo_defs)

text \<open>
  C2. The claim: \<open>Set\<close> of a present key in a TTL cache detaches the old entry and inserts
  a fresh one, the list stays in non-decreasing expiry order, and map and order structure
  stay in step. Evaluated with TTL 10:
  \<^item> list engine, \<open>Set("a")\<close> at 0, \<open>Set("b")\<close> at 1, \<open>Set("a")\<close> at 2: the map still
    points to cell 0 for \<open>"a"\<close> and no cell is allocated; from the head, cell 0 expires at
    12 and its successor, cell 1, at 11; the successor of cell 1 is cell 0 again;
  \<^item> heap engine, \<open>Set("a")\<close> at 0, \<open>Set("b")\<close> at 1, \<open>Set("b")\<close> at 2: the heap slice
    still holds the zeroed cell 1, which has no key and no expiry, while the map points to
    cell 2 for \<open>"b"\<close>.
\<close>

theorem ttl_overwrite_breaks_order:
  "(\<exists>l0 l1 l2 l3. NewTTL 10 = Inr l0
      \<and> ttl_set l0 ''a'' (1::int) 0 = Inr l1
      \<and> ttl_set l1 ''b'' 2 1 = Inr l2
      \<and> fmlookup (ttl_cache l2) ''a'' = Some 0
      \<and> ttl_set l2 ''a'' 3 2 = Inr l3
      \<and> fmlookup (ttl_cache l3) ''a'' = Some 0
      \<and> length (ttl_cells l3) = 2
      \<and> ttl_head l3 = Some 0
      \<and> ttl_expiresAt (ttl_cells l3 ! 0) = Some 12
      \<and> ttl_next (ttl_cells l3 ! 0) = Some 1
      \<and> ttl_expiresAt (ttl_cells l3 ! 1) = Some 11
      \<and> ttl_next (ttl_cells l3 ! 1) = Some 0)
   \<and> (\<exists>l0 l1 l2 l3. NewTTLh 10 = Inr l0
      \<and> ttlh_set l0 ''a'' (1::int) 0 = Inr l1
      \<and> ttlh_set l1 ''b'' 2 1 = Inr l2
      \<and> ttlh_set l2 ''b'' 3 2 = Inr l3
      \<and> ttlh_heap l3 = [0, 1, 2]
      \<and> ttlh_key (ttlh_cells l3 ! 1) = None
      \<and> ttlh_expiresAt (ttlh_cells l3 ! 1) = None
      \<and> fmlookup (ttlh_cache l3) ''b'' = Some 2)"
  by (simp add: ttl_defs ttlh_defs)


section \<open>Reads\<close>

text \<open>
  C3. In both TTL engines, on a cache that is not stopped: when the map holds a cell for the
  key and the expiry of that cell is strictly before \<open>now\<close>, \<open>get\<close> reports not-found and
  returns the cache as it was; the cell stays in the map and in the order structure.
\<close>

theorem ttl_get_expired:
  "(\<not> ttl_isStopped l \<and> fmlookup (ttl_cache l) k = Some a \<and> a < length (ttl_cells l)
      \<and> ttl_expiresAt (ttl_cells l ! a) = Some e \<and> e < now
    \<longrightarrow> ttl_get l k now = Inr ((0, False), l))
   \<and> (\<not> ttlh_isStopped h \<and> fmlookup (ttlh_cache h) k = Some a \<and> a < length (ttlh_cells h)
      \<and> ttlh_expiresAt (ttlh_cells h ! a) = Some e \<and> e < now
    \<longrightarrow> ttlh_get h k now = Inr ((0, False), h))"
  by (simp add: ttl_get_def ttlh_get_def)

theorem ttl_get_expired_witness:
  "fmlookup (ttl_cache ttl_example) ''a'' = Some 0
   \<and> ttl_get ttl_example ''a'' 10 = Inr ((1, True), ttl_example)
   \<and> ttl_get ttl_example ''a'' 11 = Inr ((0, False), ttl_example)
   \<and> fmlookup (ttlh_cache ttlh_example) ''a'' = Some 0
   \<and> ttlh_get ttlh_example ''a'' 10 = Inr ((1, True), ttlh_example)
   \<and> ttlh_get ttlh_example ''a'' 11 = Inr ((0, False), ttlh_example)"
  using ttl_get_expired [of ttl_example "''a''" 0 10 11 ttlh_example]
  by (simp add: ttl_defs ttlh_defs ttl_example_def ttlh_example_def)

lemma fifo_get_same: "fifo_get l k = Inr (r, l') \<Longrightarrow> l' = l"
  by (auto simp: fifo_get_def split: option.splits if_splits)

lemma fifo_get_returns: "fifo_indexed l \<Longrightarrow> \<not> fifo_isStopped l \<Longrightarrow> \<exists>r. fifo_get l k = Inr (r, l)"
  by (auto simp: fifo_get_def fifo_indexed_def split: option.splits)

lemma lifo_get_same: "lifo_get l k = Inr (r, l') \<Longrightarrow> l' = l"
  by (auto simp: lifo_get_def split: option.splits if_splits)

lemma lifo_get_returns: "lifo_indexed l \<Longrightarrow> \<not> lifo_isStopped l \<Longrightarrow> \<exists>r. lifo_get l k = Inr (r, l)"
  by (auto simp: lifo_get_def lifo_indexed_def split: option.splits)

lemma random_get_same: "random_get l k = Inr (r, l') \<Longrightarrow> l' = l"
  by (auto simp: random_get_def split: option.splits if_splits)

lemma random_get_returns: "\<not> random_isStopped l \<Longrightarrow> \<exists>r. random_get l k = Inr (r, l)"
  by (auto simp: random_get_def split: option.splits)

lemma ttl_get_same: "ttl_get l k now = Inr (r, l') \<Longrightarrow> l' = l"
  by (auto simp: ttl_get_def split: option.splits if_splits)

lemma ttl_get_returns: "ttl_indexed l \<Longrightarrow> \<not> ttl_isStopped l \<Longrightarrow> \<exists>r. ttl_get l k now = Inr (r, l)"
  by (fastforce simp: ttl_get_def ttl_indexed_def split: option.splits)

lemma ttlh_get_same: "ttlh_get l k now = Inr (r, l') \<Longrightarrow> l' = l"
  by (auto simp: ttlh_get_def split: option.splits if_splits)

lemma ttlh_get_returns: "ttlh_indexed l \<Longrightarrow> \<not> ttlh_isStopped l \<Longrightarrow> \<exists>r. ttlh_get l k now = Inr (r, l)"
  by (fastforce simp: ttlh_get_def ttlh_indexed_def split: option.splits)


text \<open>
  C10. \<open>get\<close> of FIFO, LIFO, Random and both TTL engines changes nothing: whenever it
  returns, be it a hit, a miss or an expired entry, the cache it returns is the cache it was
  given; and on a cache that is not stopped and whose map points to cells (with an expiry,
  for TTL) it does return.
\<close>

theorem get_is_read_only:
  "(\<forall>r l'. fifo_get lf k = Inr (r, l') \<longrightarrow> l' = lf)
   \<and> (fifo_indexed lf \<and> \<not> fifo_isStopped lf \<longrightarrow> (\<exists>r. fifo_get lf k = Inr (r, lf)))
   \<and> (\<forall>r l'. lifo_get ll k = Inr (r, l') \<longrightarrow> l' = ll)
   \<and> (lifo_indexed ll \<and> \<not> lifo_isStopped ll \<longrightarrow> (\<exists>r. lifo_get ll k = Inr (r, ll)))
   \<and> (\<forall>r l'. random_get lr k = Inr (r, l') \<longrightarrow> l' = lr)
   \<and> (\<not> random_isStopped lr \<longrightarrow> (\<exists>r. random_get lr k = Inr (r, lr)))
   \<and> (\<forall>r l'. ttl_get lt k now = Inr (r, l') \<longrightarrow> l' = lt)
   \<and> (ttl_indexed lt \<and> \<not> ttl_isStopped lt \<longrightarrow> (\<exists>r. ttl_get lt k now = Inr (r, lt)))
   \<and> (\<forall>r l'. ttlh_get lh k now = Inr (r, l') \<longrightarrow> l' = lh)
   \<and> (ttlh_indexed lh \<and> \<not> ttlh_isStopped lh \<longrightarrow> (\<exists>r. ttlh_get lh k now = Inr (r, lh)))"
  using fifo_get_same [of lf k] fifo_get_returns [of lf k]
        lifo_get_same [of ll k] lifo_get_returns [of ll k]
        random_get_same [of lr k] random_get_returns [of lr k]
        ttl_get_same [of lt k now] ttl_get_returns [of lt k now]
        ttlh_get_same [of lh k now] ttlh_get_returns [of lh k now]
  by (intro conjI allI impI) blast+

theorem get_is_read_only_witness:
  "fifo_indexed fifo_example \<and> \<not> fifo_isStopped fifo_example
   \<and> fifo_get fifo_example ''a'' = Inr ((1, True), fifo_example)
   \<and> fifo_get fifo_example ''z'' = Inr ((0, False), fifo_example)
   \<and> lifo_get lifo_example ''a'' = Inr ((1, True), lifo_example)
   \<and> random_get random_example ''a'' = Inr ((1, True), random_example)
   \<and> ttl_indexed ttl_example
   \<and> ttl_get ttl_example ''a'' 3 = Inr ((1, True), ttl_example)
   \<and> ttl_get ttl_example ''a'' 30 = Inr ((0, False), ttl_example)
   \<and> ttlh_indexed ttlh_example
   \<and> ttlh_get ttlh_example ''a'' 3 = Inr ((1, True), ttlh_example)"
proof -
  have "fifo_indexed fifo_example" "\<not> fifo_isStopped fifo_example"
       "lifo_indexed lifo_example" "\<not> lifo_isStopped lifo_example"
       "\<not> random_isStopped random_example"
       "ttl_indexed ttl_example" "\<not> ttl_isStopped ttl_example"
       "ttlh_indexed ttlh_example" "\<not> ttlh_isStopped ttlh_example"
    by (simp_all add: fifo_indexed_def lifo_indexed_def ttl_indexed_def ttlh_indexed_def
          fifo_isStopped_def lifo_isStopped_def random_isStopped_def ttl_isStopped_def
          ttlh_isStopped_def
          fifo_example_def lifo_example_def random_example_def ttl_example_def ttlh_example_def)
  moreover have "fifo_get fifo_example ''a'' = Inr ((1, True), fifo_example)"
    using get_is_read_only [of fifo_example "''a''" lifo_example random_example ttl_example 3 ttlh_example]
    by (simp add: fifo_get_def fifo_isStopped_def fifo_example_def)
  moreover have "fifo_get fifo_example ''z'' = Inr ((0, False), fifo_example)"
    by (simp add: fifo_get_def fifo_isStopped_def fifo_example_def)
  moreover have "lifo_get lifo_example ''a'' = Inr ((1, True), lifo_example)"
    by (simp add: lifo_get_def lifo_isStopped_def lifo_example_def)
  moreover have "random_get random_example ''a'' = Inr ((1, True), random_example)"
    by (simp add: random_get_def random_isStopped_def random_example_def)
  moreover have "ttl_get ttl_example ''a'' 3 = Inr ((1, True), ttl_example)"
    by (simp add: ttl_get_def ttl_isStopped_def ttl_example_def)
  moreover have "ttl_get ttl_example ''a'' 30 = Inr ((0, False), ttl_example)"
    by (simp add: ttl_get_def ttl_isStopped_def ttl_example_def)
  moreover have "ttlh_get ttlh_example ''a'' 3 = Inr ((1, True), ttlh_example)"
    by (simp add: ttlh_get_def ttlh_isStopped_def ttlh_example_def)
  ultimately show ?thesis by simp
qed


section \<open>Fetch with a failing compute function\<close>

lemma fifo_Fetch_failure:
  assumes "fifo_get l k = Inr ((w, False), l')" and "fn () = (v, Some err)"
  shows "fifo_Fetch l k fn = Inr ((0, Some err), l) \<and> fifo_get l k = Inr ((0, False), l)"
  using assms by (auto simp: fifo_Fetch_def fifo_get_def split: if_splits option.splits)

lemma lifo_Fetch_failure:
  assumes "lifo_get l k = Inr ((w, False), l')" and "fn () = (v, Some err)"
  shows "lifo_Fetch l k fn = Inr ((0, Some err), l) \<and> lifo_get l k = Inr ((0, False), l)"
  using assms by (auto simp: lifo_Fetch_def lifo_get_def split: if_splits option.splits)

lemma lru_Fetch_failure:
  assumes "lru_get l k = Inr ((w, False), l')" and "fn () = (v, Some err)"
  shows "lru_Fetch l k fn = Inr ((0, Some err), l) \<and> lru_get l k = Inr ((0, False), l)"
  using assms by (auto simp: lru_Fetch_def lru_get_def Let_def split: if_splits option.splits)

lemma random_Fetch_failure:
  assumes "random_get l k = Inr ((w, False), l')" and "fn () = (v, Some err)"
  shows "random_Fetch l k fn (Inr ((0, Some err), l))
         \<and> (\<forall>r. random_Fetch l k fn r \<longrightarrow> r = Inr ((0, Some err), l))
         \<and> random_get l k = Inr ((0, False), l)"
proof -
  from assms(1) have m: "\<not> random_isStopped l" "random_get l k = Inr ((0, False), l)"
    by (auto simp: random_get_def split: if_splits option.splits)
  from m assms(2) have 1: "random_Fetch l k fn (Inr ((0, Some err), l))"
    by (rule random_Fetch.failed)
  have 2: "r = Inr ((0, Some err), l)" if "random_Fetch l k fn r" for r
    using that m assms(2) by (cases rule: random_Fetch.cases) auto
  from 1 2 m show ?thesis by blast
qed

lemma ttl_Fetch_failure:
  assumes "ttl_get l k now = Inr ((w, False), l')" and "fn () = (v, Some err)"
  shows "ttl_Fetch l k fn now = Inr ((0, Some err), l) \<and> ttl_get l k now = Inr ((0, False), l)"
  using assms by (auto simp: ttl_Fetch_def ttl_get_def split: if_splits option.splits)

lemma ttlh_Fetch_failure:
  assumes "ttlh_get l k now = Inr ((w, False), l')" and "fn () = (v, Some err)"
  shows "ttlh_Fetch l k fn now = Inr ((0, Some err), l) \<and> ttlh_get l k now = Inr ((0, False), l)"
  using assms by (auto simp: ttlh_Fetch_def ttlh_get_def split: if_splits option.splits)


text \<open>
  C7. In all six engines: when \<open>get\<close> reports not-found for the key (the key is absent
  or, for TTL, expired) and the compute function returns an error, \<open>Fetch\<close> returns the
  zero value with that error and the cache it was given; \<open>get\<close> on the cache returned
  still reports not-found. For the random engine this is the only outcome of \<open>Fetch\<close>.
\<close>

theorem fetch_failure_leaves_cache:
  "(fifo_get lf k = Inr ((w, False), lf') \<and> fn () = (v, Some err)
      \<longrightarrow> fifo_Fetch lf k fn = Inr ((0, Some err), lf) \<and> fifo_get lf k = Inr ((0, False), lf))
   \<and> (lifo_get ll k = Inr ((w, False), ll') \<and> fn () = (v, Some err)
      \<longrightarrow> lifo_Fetch ll k fn = Inr ((0, Some err), ll) \<and> lifo_get ll k = Inr ((0, False), ll))
   \<and> (lru_get lu k = Inr ((w, False), lu') \<and> fn () = (v, Some err)
      \<longrightarrow> lru_Fetch lu k fn = Inr ((0, Some err), lu) \<and> lru_get lu k = Inr ((0, False), lu))
   \<and> (random_get lr k = Inr ((w, False), lr') \<and> fn () = (v, Some err)
      \<longrightarrow> random_Fetch lr k fn (Inr ((0, Some err), lr))
          \<and> (\<forall>r. random_Fetch lr k fn r \<longrightarrow> r = Inr ((0, Some err), lr))
          \<and> random_get lr k = Inr ((0, False), lr))
   \<and> (ttl_get lt k now = Inr ((w, False), lt') \<and> fn () = (v, Some err)
      \<longrightarrow> ttl_Fetch lt k fn now = Inr ((0, Some err), lt) \<and> ttl_get lt k now = Inr ((0, False), lt))
   \<and> (ttlh_get lh k now = Inr ((w, False), lh') \<and> fn () = (v, Some err)
      \<longrightarrow> ttlh_Fetch lh k fn now = Inr ((0, Some err), lh) \<and> ttlh_get lh k now = Inr ((0, False), lh))"
proof (intro conjI)
  show "fifo_get lf k = Inr ((w, False), lf') \<and> fn () = (v, Some err)
      \<longrightarrow> fifo_Fetch lf k fn = Inr ((0, Some err), lf) \<and> fifo_get lf k = Inr ((0, False), lf)"
    using fifo_Fetch_failure [of lf k w lf' fn v err] by blast
  show "lifo_get ll k = Inr ((w, False), ll') \<and> fn () = (v, Some err)
      \<longrightarrow> lifo_Fetch ll k fn = Inr ((0, Some err), ll) \<and> lifo_get ll k = Inr ((0, False), ll)"
    using lifo_Fetch_failure [of ll k w ll' fn v err] by blast
  show "lru_get lu k = Inr ((w, False), lu') \<and> fn () = (v, Some err)
      \<longrightarrow> lru_Fetch lu k fn = Inr ((0, Some err), lu) \<and> lru_get lu k = Inr ((0, False), lu)"
    using lru_Fetch_failure [of lu k w lu' fn v err] by blast
  show "random_get lr k = Inr ((w, False), lr') \<and> fn () = (v, Some err)
      \<longrightarrow> random_Fetch lr k fn (Inr ((0, Some err), lr))
          \<and> (\<forall>r. random_Fetch lr k fn r \<longrightarrow> r = Inr ((0, Some err), lr))
          \<and> random_get lr k = Inr ((0, False), lr)"
    using random_Fetch_failure [of lr k w lr' fn v err] by blast
  show "ttl_get lt k now = Inr ((w, False), lt') \<and> fn () = (v, Some err)
      \<longrightarrow> ttl_Fetch lt k fn now = Inr ((0, Some err), lt) \<and> ttl_get lt k now = Inr ((0, False), lt)"
    using ttl_Fetch_failure [of lt k now w lt' fn v err] by blast
  show "ttlh_get lh k now = Inr ((w, False), lh') \<and> fn () = (v, Some err)
      \<longrightarrow> ttlh_Fetch lh k fn now = Inr ((0, Some err), lh) \<and> ttlh_get lh k now = Inr ((0, False), lh)"
    using ttlh_Fetch_failure [of lh k now w lh' fn v err] by blast
qed

theorem fetch_failure_leaves_cache_witness:
  "fifo_get fifo_example ''z'' = Inr ((0, False), fifo_example)
   \<and> fifo_Fetch fifo_example ''z'' failing = Inr ((0, Some ''boom''), fifo_example)
   \<and> lifo_Fetch lifo_example ''z'' failing = Inr ((0, Some ''boom''), lifo_example)
   \<and> lru_Fetch lru_example ''z'' failing = Inr ((0, Some ''boom''), lru_example)
   \<and> random_Fetch random_example ''z'' failing (Inr ((0, Some ''boom''), random_example))
   \<and> ttl_Fetch ttl_example ''z'' failing 3 = Inr ((0, Some ''boom''), ttl_example)
   \<and> ttlh_Fetch ttlh_example ''z'' failing 3 = Inr ((0, Some ''boom''), ttlh_example)
   \<and> ttl_get ttl_example ''a'' 30 = Inr ((0, False), ttl_example)
   \<and> ttl_Fetch ttl_example ''a'' failing 30 = Inr ((0, Some ''boom''), ttl_example)"
proof -
  have f: "failing () = (7, Some ''boom'')" by (simp add: failing_def)
  have "fifo_get fifo_example ''z'' = Inr ((0, False), fifo_example)"
    by (simp add: fifo_get_def fifo_isStopped_def fifo_example_def)
  moreover have "lifo_get lifo_example ''z'' = Inr ((0, False), lifo_example)"
    by (simp add: lifo_get_def lifo_isStopped_def lifo_example_def)
  moreover have "lru_get lru_example ''z'' = Inr ((0, False), lru_example)"
    by (simp add: lru_get_def lru_isStopped_def lru_example_def)
  moreover have "random_get random_example ''z'' = Inr ((0, False), random_example)"
    by (simp add: random_get_def random_isStopped_def random_example_def)
  moreover have "ttl_get ttl_example ''z'' 3 = Inr ((0, False), ttl_example)"
    by (simp add: ttl_get_def ttl_isStopped_def ttl_example_def)
  moreover have "ttlh_get ttlh_example ''z'' 3 = Inr ((0, False), ttlh_example)"
    by (simp add: ttlh_get_def ttlh_isStopped_def ttlh_example_def)
  moreover have e: "ttl_get ttl_example ''a'' 30 = Inr ((0, False), ttl_example)"
    by (simp add: ttl_get_def ttl_isStopped_def ttl_example_def)
  ultimately show ?thesis
    using f
      fetch_failure_leaves_cache [of fifo_example "''z''" 0 fifo_example failing 7 "''boom''"
        lifo_example lifo_example lru_example lru_example random_example random_example
        ttl_example 3 ttl_example ttlh_example ttlh_example]
      fetch_failure_leaves_cache [of fifo_example "''a''" 0 fifo_example failing 7 "''boom''"
        lifo_example lifo_example lru_example lru_example random_example random_example
        ttl_example 30 ttl_example ttlh_example ttlh_example]
    by (simp only: simp_thms)
qed


section \<open>Stop\<close>

lemma fifo_Stop_effect:
  assumes "fifo_stopped l = 0"
  shows "fifo_isStopped (fifo_Stop l) \<and> fifo_cache (fifo_Stop l) = fmempty
      \<and> fifo_head (fifo_Stop l) = None \<and> fifo_tail (fifo_Stop l) = None
      \<and> fifo_get (fifo_Stop l) k = Inl CacheStopped
      \<and> fifo_set (fifo_Stop l) k v = Inl CacheStopped
      \<and> fifo_Fetch (fifo_Stop l) k fn = Inl CacheStopped
      \<and> fifo_Stop (fifo_Stop l) = fifo_Stop l"
  using assms
  by (simp add: fifo_Stop_def fifo_isStopped_def fifo_get_def fifo_set_def fifo_Fetch_def)

lemma lifo_Stop_effect:
  assumes "lifo_stopped l = 0"
  shows "lifo_isStopped (lifo_Stop l) \<and> lifo_cache (lifo_Stop l) = fmempty
      \<and> lifo_head (lifo_Stop l) = None
      \<and> lifo_get (lifo_Stop l) k = Inl CacheStopped
      \<and> lifo_set (lifo_Stop l) k v = Inl CacheStopped
      \<and> lifo_Fetch (lifo_Stop l) k fn = Inl CacheStopped
      \<and> lifo_Stop (lifo_Stop l) = lifo_Stop l"
  using assms
  by (simp add: lifo_Stop_def lifo_isStopped_def lifo_get_def lifo_set_def lifo_Fetch_def)

lemma lru_Stop_effect:
  assumes "lru_stopped l = 0"
  shows "lru_isStopped (lru_Stop l) \<and> lru_cache (lru_Stop l) = fmempty
      \<and> lru_head (lru_Stop l) = None \<and> lru_tail (lru_Stop l) = None
      \<and> lru_get (lru_Stop l) k = Inl CacheStopped
      \<and> lru_set (lru_Stop l) k v = Inl CacheStopped
      \<and> lru_Fetch (lru_Stop l) k fn = Inl CacheStopped
      \<and> lru_Stop (lru_Stop l) = lru_Stop l"
  using assms
  by (simp add: lru_Stop_def lru_isStopped_def lru_get_def lru_set_def lru_Fetch_def)

lemma random_set_stopped:
  assumes "random_isStopped l"
  shows "random_set l k v r \<longleftrightarrow> r = Inl CacheStopped"
proof
  assume "random_set l k v r"
  then show "r = Inl CacheStopped" using assms by cases auto
next
  assume "r = Inl CacheStopped"
  then show "random_set l k v r" using assms by (simp add: random_set.stopped)
qed

lemma random_Fetch_stopped:
  assumes "random_isStopped l"
  shows "random_Fetch l k fn r \<longleftrightarrow> r = Inl CacheStopped"
proof
  assume "random_Fetch l k fn r"
  then show "r = Inl CacheStopped" using assms by cases auto
next
  assume "r = Inl CacheStopped"
  then show "random_Fetch l k fn r" using assms by (simp add: random_Fetch.stopped)
qed

lemma random_Stop_effect:
  assumes "random_stopped l = 0"
  shows "random_isStopped (random_Stop l) \<and> random_cache (random_Stop l) = fmempty
      \<and> random_get (random_Stop l) k = Inl CacheStopped
      \<and> random_set (random_Stop l) k v (Inl CacheStopped)
      \<and> (\<forall>r. random_set (random_Stop l) k v r \<longrightarrow> r = Inl CacheStopped)
      \<and> random_Fetch (random_Stop l) k fn (Inl CacheStopped)
      \<and> (\<forall>r. random_Fetch (random_Stop l) k fn r \<longrightarrow> r = Inl CacheStopped)
      \<and> random_Stop (random_Stop l) = random_Stop l"
proof -
  from assms have s: "random_isStopped (random_Stop l)"
    by (simp add: random_Stop_def random_isStopped_def)
  from assms have "random_cache (random_Stop l) = fmempty"
    and "random_Stop (random_Stop l) = random_Stop l"
    by (simp_all add: random_Stop_def)
  moreover from s have "random_get (random_Stop l) k = Inl CacheStopped"
    by (simp add: random_get_def)
  ultimately show ?thesis
    using s by (simp add: random_set_stopped [OF s] random_Fetch_stopped [OF s])
qed

lemma ttl_Stop_effect:
  assumes "ttl_stopped l = 0"
  shows "ttl_isStopped (ttl_Stop l) \<and> ttl_cache (ttl_Stop l) = fmempty
      \<and> ttl_head (ttl_Stop l) = None \<and> ttl_tail (ttl_Stop l) = None
      \<and> ttl_get (ttl_Stop l) k now = Inl CacheStopped
      \<and> ttl_set (ttl_Stop l) k v now = Inl CacheStopped
      \<and> ttl_Fetch (ttl_Stop l) k fn now = Inl CacheStopped
      \<and> ttl_Stop (ttl_Stop l) = ttl_Stop l"
  using assms
  by (simp add: ttl_Stop_def ttl_isStopped_def ttl_get_def ttl_set_def ttl_Fetch_def)

lemma ttlh_drain_empty: "ttlh_drain h = []"
proof (induction h rule: ttlh_drain.induct)
  case (1 h)
  then show ?case
    by (subst ttlh_drain.simps) (auto simp: ttlHeap_Pop_def)
qed

lemma ttlh_Stop_effect:
  assumes "ttlh_stopped l = 0"
  shows "ttlh_isStopped (ttlh_Stop l) \<and> ttlh_cache (ttlh_Stop l) = fmempty
      \<and> ttlh_heap (ttlh_Stop l) = []
      \<and> ttlh_get (ttlh_Stop l) k now = Inl CacheStopped
      \<and> ttlh_set (ttlh_Stop l) k v now = Inl CacheStopped
      \<and> ttlh_Fetch (ttlh_Stop l) k fn now = Inl CacheStopped
      \<and> ttlh_Stop (ttlh_Stop l) = ttlh_Stop l"
  using assms
  by (simp add: ttlh_Stop_def ttlh_isStopped_def ttlh_get_def ttlh_set_def ttlh_Fetch_def
        ttlh_drain_empty)


text \<open>
  C8. In all six engines, \<open>Stop\<close> on a cache whose flag is 0 sets the flag, leaves the map
  empty and the head, the tail and the heap slice \<open>nil\<close> or empty; on the cache it
  returns \<open>get\<close>, \<open>set\<close> and \<open>Fetch\<close> panic with "cache is stopped" (for the random
  engine this is their only outcome), and a second \<open>Stop\<close> returns it unchanged.
\<close>

theorem stop_clears_and_disables:
  "(fifo_stopped lf = 0 \<longrightarrow>
      fifo_isStopped (fifo_Stop lf) \<and> fifo_cache (fifo_Stop lf) = fmempty
      \<and> fifo_head (fifo_Stop lf) = None \<and> fifo_tail (fifo_Stop lf) = None
      \<and> fifo_get (fifo_Stop lf) k = Inl CacheStopped
      \<and> fifo_set (fifo_Stop lf) k v = Inl CacheStopped
      \<and> fifo_Fetch (fifo_Stop lf) k fn = Inl CacheStopped
      \<and> fifo_Stop (fifo_Stop lf) = fifo_Stop lf)
   \<and> (lifo_stopped ll = 0 \<longrightarrow>
      lifo_isStopped (lifo_Stop ll) \<and> lifo_cache (lifo_Stop ll) = fmempty
      \<and> lifo_head (lifo_Stop ll) = None
      \<and> lifo_get (lifo_Stop ll) k = Inl CacheStopped
      \<and> lifo_set (lifo_Stop ll) k v = Inl CacheStopped
      \<and> lifo_Fetch (lifo_Stop ll) k fn = Inl CacheStopped
      \<and> lifo_Stop (lifo_Stop ll) = lifo_Stop ll)
   \<and> (lru_stopped lu = 0 \<longrightarrow>
      lru_isStopped (lru_Stop lu) \<and> lru_cache (lru_Stop lu) = fmempty
      \<and> lru_head (lru_Stop lu) = None \<and> lru_tail (lru_Stop lu) = None
      \<and> lru_get (lru_Stop lu) k = Inl CacheStopped
      \<and> lru_set (lru_Stop lu) k v = Inl CacheStopped
      \<and> lru_Fetch (lru_Stop lu) k fn = Inl CacheStopped
      \<and> lru_Stop (lru_Stop lu) = lru_Stop lu)
   \<and> (random_stopped lr = 0 \<longrightarrow>
      random_isStopped (random_Stop lr) \<and> random_cache (random_Stop lr) = fmempty
      \<and> random_get (random_Stop lr) k = Inl CacheStopped
      \<and> random_set (random_Stop lr) k v (Inl CacheStopped)
      \<and> (\<forall>r. random_set (random_Stop lr) k v r \<longrightarrow> r = Inl CacheStopped)
      \<and> random_Fetch (random_Stop lr) k fn (Inl CacheStopped)
      \<and> (\<forall>r. random_Fetch (random_Stop lr) k fn r \<longrightarrow> r = Inl CacheStopped)
      \<and> random_Stop (random_Stop lr) = random_Stop lr)
   \<and> (ttl_stopped lt = 0 \<longrightarrow>
      ttl_isStopped (ttl_Stop lt) \<and> ttl_cache (ttl_Stop lt) = fmempty
      \<and> ttl_head (ttl_Stop lt) = None \<and> ttl_tail (ttl_Stop lt) = None
      \<and> ttl_get (ttl_Stop lt) k now = Inl CacheStopped
      \<and> ttl_set (ttl_Stop lt) k v now = Inl CacheStopped
      \<and> ttl_Fetch (ttl_Stop lt) k fn now = Inl CacheStopped
      \<and> ttl_Stop (ttl_Stop lt) = ttl_Stop lt)
   \<and> (ttlh_stopped lh = 0 \<longrightarrow>
      ttlh_isStopped (ttlh_Stop lh) \<and> ttlh_cache (ttlh_Stop lh) = fmempty
      \<and> ttlh_heap (ttlh_Stop lh) = []
      \<and> ttlh_get (ttlh_Stop lh) k now = Inl CacheStopped
      \<and> ttlh_set (ttlh_Stop lh) k v now = Inl CacheStopped
      \<and> ttlh_Fetch (ttlh_Stop lh) k fn now = Inl CacheStopped
      \<and> ttlh_Stop (ttlh_Stop lh) = ttlh_Stop lh)"
  by (intro conjI impI fifo_Stop_effect lifo_Stop_effect lru_Stop_effect random_Stop_effect
        ttl_Stop_effect ttlh_Stop_effect)

theorem stop_clears_and_disables_witness:
  "fifo_stopped fifo_example = 0
   \<and> fifo_cache (fifo_Stop fifo_example) = fmempty
   \<and> fifo_head (fifo_Stop fifo_example) = None
   \<and> fifo_get (fifo_Stop fifo_example) ''a'' = Inl CacheStopped
   \<and> fifo_set (fifo_Stop fifo_example) ''a'' 2 = Inl CacheStopped
   \<and> fifo_Stop (fifo_Stop fifo_example) = fifo_Stop fifo_example
   \<and> lifo_get (lifo_Stop lifo_example) ''a'' = Inl CacheStopped
   \<and> lru_get (lru_Stop lru_example) ''a'' = Inl CacheStopped
   \<and> random_get (random_Stop random_example) ''a'' = Inl CacheStopped
   \<and> ttl_get (ttl_Stop ttl_example) ''a'' 3 = Inl CacheStopped
   \<and> ttlh_get (ttlh_Stop ttlh_example) ''a'' 3 = Inl CacheStopped
   \<and> ttlh_heap (ttlh_Stop ttlh_example) = []"
proof -
  have "fifo_stopped fifo_example = 0" "lifo_stopped lifo_example = 0"
       "lru_stopped lru_example = 0" "random_stopped random_example = 0"
       "ttl_stopped ttl_example = 0" "ttlh_stopped ttlh_example = 0"
    by (simp_all add: fifo_example_def lifo_example_def lru_example_def random_example_def
          ttl_example_def ttlh_example_def)
  then show ?thesis
    using stop_clears_and_disables [of fifo_example "''a''" 2 failing lifo_example lru_example
            random_example ttl_example 3 ttlh_example]
    by (simp only: simp_thms)
qed


section \<open>The capacity bound\<close>

text \<open>The states in order are closed under \<open>set\<close>, and \<open>set\<close> returns on them.\<close>

lemma path_valid: "path nxt cells p xs q \<Longrightarrow> a \<in> set xs \<Longrightarrow> a < length cells"
  by (induction xs arbitrary: p) auto

lemma path_update_notin:
  "a \<notin> set xs \<Longrightarrow> path nxt (cells[a := c]) p xs q = path nxt cells p xs q"
  by (induction xs arbitrary: p) auto

lemma path_cong:
  assumes "length cells' = length cells"
    and "\<And>a. a \<in> set xs \<Longrightarrow> a < length cells \<Longrightarrow> nxt (cells' ! a) = nxt (cells ! a)"
  shows "path nxt cells' p xs q = path nxt cells p xs q"
  using assms(2)
proof (induction xs arbitrary: p)
  case Nil
  show ?case by simp
next
  case (Cons x xs)
  have "path nxt cells' (nxt (cells ! x)) xs q = path nxt cells (nxt (cells ! x)) xs q"
    using Cons.prems by (intro Cons.IH) simp
  then show ?case using Cons.prems [of x] assms(1) by auto
qed

lemma path_update_same:
  assumes "nxt c = nxt (cells ! a)"
  shows "path nxt (cells[a := c]) p xs q = path nxt cells p xs q"
proof (rule path_cong)
  show "length (cells[a := c]) = length cells" by simp
next
  fix b assume "b < length cells"
  then show "nxt (cells[a := c] ! b) = nxt (cells ! b)"
    using assms by (cases "b = a") simp_all
qed

lemma path_extend:
  "path nxt cells p xs q \<Longrightarrow> path nxt (cells @ [c]) p xs q"
  by (induction xs arbitrary: p) (auto simp: nth_append)

lemma path_append:
  "path nxt cells p (xs @ ys) q \<longleftrightarrow> (\<exists>m. path nxt cells p xs m \<and> path nxt cells m ys q)"
  by (induction xs arbitrary: p) auto

lemma len_nonneg: "0 \<le> len m"
  by (simp add: len_def)

lemma len_pos_lookup:
  assumes "0 < len m"
  shows "\<exists>k a. fmlookup m k = Some a"
proof -
  from assms have "fmdom m \<noteq> {||}" by (auto simp: len_def fcard_fempty)
  then obtain k where "k |\<in>| fmdom m" by auto
  then show ?thesis by (auto simp: fmlookup_dom_iff)
qed

lemma fifo_inv_New:
  assumes "0 < n"
  shows "\<exists>l. NewFIFO n = Inr l \<and> fifo_inv l [] \<and> \<not> fifo_isStopped l \<and> fifo_capacity l = n"
  using assms by (simp add: NewFIFO_def fifo_inv_def fifo_isStopped_def)

lemma fifo_evict_inv:
  assumes inv: "fifo_inv l xs"
  shows "\<exists>l' xs'. fifo_evict l = Inr l' \<and> fifo_inv l' xs'
           \<and> len (fifo_cache l') < fifo_capacity l
           \<and> fifo_capacity l' = fifo_capacity l \<and> fifo_stopped l' = fifo_stopped l"
proof (cases "fifo_capacity l \<le> len (fifo_cache l)")
  case False
  with inv show ?thesis by (auto simp: fifo_evict_def)
next
  case True
  from inv have cap: "0 < fifo_capacity l" and le: "len (fifo_cache l) \<le> fifo_capacity l"
    and p: "path fifo_next (fifo_cells l) (fifo_head l) xs None" and d: "distinct xs"
    and b: "\<And>a. a \<in> set xs \<Longrightarrow>
              \<exists>k. fifo_key (fifo_cells l ! a) = Some k \<and> fmlookup (fifo_cache l) k = Some a"
    and c: "\<And>k a. fmlookup (fifo_cache l) k = Some a \<Longrightarrow>
              a \<in> set xs \<and> fifo_key (fifo_cells l ! a) = Some k"
    and t: "xs \<noteq> [] \<Longrightarrow> fifo_tail l = Some (last xs)"
    and tv: "\<And>t. fifo_tail l = Some t \<Longrightarrow> t < length (fifo_cells l)"
    unfolding fifo_inv_def by blast+
  from True cap have "0 < len (fifo_cache l)" by simp
  then obtain k0 a0 where "fmlookup (fifo_cache l) k0 = Some a0"
    using len_pos_lookup by blast
  with c have "xs \<noteq> []" by fastforce
  then obtain h ys where xs: "xs = h # ys" by (cases xs) auto
  with p have hd: "fifo_head l = Some h" and hv: "h < length (fifo_cells l)"
    and py: "path fifo_next (fifo_cells l) (fifo_next (fifo_cells l ! h)) ys None"
    by auto
  from b [of h] xs obtain hk where hk: "fifo_key (fifo_cells l ! h) = Some hk"
    and lk: "fmlookup (fifo_cache l) hk = Some h" by auto
  define l' where "l' = l\<lparr>fifo_cache := fmdrop hk (fifo_cache l),
                           fifo_cells := (fifo_cells l)[h := fifo_zero],
                           fifo_head := fifo_next (fifo_cells l ! h)\<rparr>"
  have ev: "fifo_evict l = Inr l'"
    using True hd hv hk by (simp add: fifo_evict_def l'_def)
  from lk have dom: "hk |\<in>| fmdom (fifo_cache l)" by (rule fmdomI)
  have len': "len (fifo_cache l') = len (fifo_cache l) - 1"
    using dom by (simp add: l'_def)
  from d xs have hn: "h \<notin> set ys" and dy: "distinct ys" by auto
  have "fifo_inv l' ys"
    unfolding fifo_inv_def
  proof (intro conjI ballI allI impI)
    show "0 < fifo_capacity l'" using cap by (simp add: l'_def)
    show "len (fifo_cache l') \<le> fifo_capacity l'" using len' le by (simp add: l'_def)
    show "path fifo_next (fifo_cells l') (fifo_head l') ys None"
      using py hn by (simp add: l'_def path_update_notin)
    show "distinct ys" by (rule dy)
  next
    fix a assume a: "a \<in> set ys"
    with hn have ne: "a \<noteq> h" by auto
    from a xs b [of a] obtain k where k: "fifo_key (fifo_cells l ! a) = Some k"
      and ka: "fmlookup (fifo_cache l) k = Some a" by auto
    from ka lk ne have "k \<noteq> hk" by auto
    with k ka ne show "\<exists>k. fifo_key (fifo_cells l' ! a) = Some k \<and> fmlookup (fifo_cache l') k = Some a"
      by (auto simp: l'_def)
  next
    fix k a assume "fmlookup (fifo_cache l') k = Some a"
    then have kn: "k \<noteq> hk" and ka: "fmlookup (fifo_cache l) k = Some a"
      by (auto simp: l'_def split: if_splits)
    from c [OF ka] have ax: "a \<in> set xs" and kk: "fifo_key (fifo_cells l ! a) = Some k" by auto
    from kk hk kn have ne: "a \<noteq> h" by auto
    with ax xs show "a \<in> set ys" by auto
    from ne kk show "fifo_key (fifo_cells l' ! a) = Some k" by (simp add: l'_def)
  next
    assume "ys \<noteq> []"
    with t xs show "fifo_tail l' = Some (last ys)" by (simp add: l'_def)
  next
    fix t assume "fifo_tail l' = Some t"
    with tv show "t < length (fifo_cells l')" by (simp add: l'_def)
  qed
  moreover have "len (fifo_cache l') < fifo_capacity l" using len' le by simp
  moreover have "fifo_capacity l' = fifo_capacity l" "fifo_stopped l' = fifo_stopped l"
    by (simp_all add: l'_def)
  ultimately show ?thesis using ev by blast
qed

lemma fifo_store_inv:
  assumes inv: "fifo_inv l xs" and room: "len (fifo_cache l) < fifo_capacity l"
  shows "\<exists>xs'. fifo_inv (fifo_store l key val) xs'
           \<and> fifo_capacity (fifo_store l key val) = fifo_capacity l
           \<and> fifo_stopped (fifo_store l key val) = fifo_stopped l"
proof -
  from inv have cap: "0 < fifo_capacity l"
    and p: "path fifo_next (fifo_cells l) (fifo_head l) xs None" and d: "distinct xs"
    and b: "\<And>a. a \<in> set xs \<Longrightarrow>
              \<exists>k. fifo_key (fifo_cells l ! a) = Some k \<and> fmlookup (fifo_cache l) k = Some a"
    and c: "\<And>k a. fmlookup (fifo_cache l) k = Some a \<Longrightarrow>
              a \<in> set xs \<and> fifo_key (fifo_cells l ! a) = Some k"
    and t: "xs \<noteq> [] \<Longrightarrow> fifo_tail l = Some (last xs)"
    and tv: "\<And>t. fifo_tail l = Some t \<Longrightarrow> t < length (fifo_cells l)"
    unfolding fifo_inv_def by blast+
  have v: "a < length (fifo_cells l)" if "a \<in> set xs" for a
    using path_valid [OF p that] .
  show ?thesis
  proof (cases "fmlookup (fifo_cache l) key")
    case (Some node)
    define l' where "l' = l\<lparr>fifo_cells := (fifo_cells l)[node := (fifo_cells l ! node)\<lparr>fifo_value := val\<rparr>]\<rparr>"
    have st: "fifo_store l key val = l'" using Some by (simp add: fifo_store_def l'_def)
    have key_same: "fifo_key (fifo_cells l' ! a) = fifo_key (fifo_cells l ! a)" if "a < length (fifo_cells l)" for a
      using that by (cases "a = node") (simp_all add: l'_def)
    have "fifo_inv l' xs"
      unfolding fifo_inv_def
    proof (intro conjI ballI allI impI)
      show "0 < fifo_capacity l'" using cap by (simp add: l'_def)
      show "len (fifo_cache l') \<le> fifo_capacity l'" using room by (simp add: l'_def)
      show "path fifo_next (fifo_cells l') (fifo_head l') xs None"
        using p by (simp add: l'_def path_update_same)
      show "distinct xs" by (rule d)
    next
      fix a assume a: "a \<in> set xs"
      from b [OF a] key_same [OF v [OF a]]
      show "\<exists>k. fifo_key (fifo_cells l' ! a) = Some k \<and> fmlookup (fifo_cache l') k = Some a"
        by (simp add: l'_def)
    next
      fix k a assume "fmlookup (fifo_cache l') k = Some a"
      then have ka: "fmlookup (fifo_cache l) k = Some a" by (simp add: l'_def)
      from c [OF ka] show "a \<in> set xs" by simp
      from c [OF ka] key_same [OF v, of a] show "fifo_key (fifo_cells l' ! a) = Some k" by simp
    next
      assume "xs \<noteq> []"
      with t show "fifo_tail l' = Some (last xs)" by (simp add: l'_def)
    next
      fix t assume "fifo_tail l' = Some t"
      with tv show "t < length (fifo_cells l')" by (simp add: l'_def)
    qed
    moreover have "fifo_capacity l' = fifo_capacity l" "fifo_stopped l' = fifo_stopped l"
      by (simp_all add: l'_def)
    ultimately show ?thesis unfolding st by blast
  next
    case None
    define n where "n = length (fifo_cells l)"
    define fresh :: "('a, 'b) fifoListItem"
      where "fresh = \<lparr>fifo_next = None, fifo_key = Some key, fifo_value = 0\<rparr>"
    define cells1 where "cells1 = fifo_cells l @ [fresh]"
    define cells2 where "cells2 = (case fifo_tail l of None \<Rightarrow> cells1
                                   | Some t \<Rightarrow> cells1[t := (cells1 ! t)\<lparr>fifo_next := Some n\<rparr>])"
    define cells3 where "cells3 = cells2[n := (cells2 ! n)\<lparr>fifo_value := val\<rparr>]"
    define l' where "l' = l\<lparr>fifo_cache := fmupd key n (fifo_cache l), fifo_cells := cells3,
                            fifo_tail := Some n,
                            fifo_head := (case fifo_head l of None \<Rightarrow> Some n | Some h \<Rightarrow> Some h)\<rparr>"
    have st: "fifo_store l key val = l'"
      unfolding fifo_store_def l'_def cells3_def cells2_def cells1_def n_def fresh_def Let_def
      using None by simp
    have len3: "length cells3 = Suc n"
      by (simp add: cells3_def cells2_def cells1_def n_def split: option.splits)
    have tn: "t < n" if "fifo_tail l = Some t" for t using tv [OF that] by (simp add: n_def)
    have new3: "fifo_next (cells3 ! n) = None \<and> fifo_key (cells3 ! n) = Some key"
      using tn
      by (auto simp: cells3_def cells2_def cells1_def n_def fresh_def nth_append split: option.splits)
    have key3: "fifo_key (cells3 ! a) = fifo_key (fifo_cells l ! a)" if "a < n" for a
      using that tn
      by (auto simp: cells3_def cells2_def cells1_def n_def nth_append nth_list_update split: option.splits)
    have next3: "fifo_next (cells3 ! a) = fifo_next (fifo_cells l ! a)"
      if "a < n" and "fifo_tail l \<noteq> Some a" for a
      using that tn
      by (auto simp: cells3_def cells2_def cells1_def n_def nth_append nth_list_update split: option.splits)
    have tail3: "fifo_next (cells3 ! t) = Some n" if "fifo_tail l = Some t" for t
      using that tn [OF that]
      by (auto simp: cells3_def cells2_def cells1_def n_def nth_append nth_list_update)
    have nx: "n \<notin> set xs" using v by (auto simp: n_def)
    have pth: "path fifo_next cells3 (fifo_head l') (xs @ [n]) None"
    proof (cases "xs = []")
      case True
      with p have "fifo_head l = None" by simp
      then show ?thesis using True new3 len3 by (simp add: l'_def)
    next
      case False
      then obtain ys t where xs: "xs = ys @ [t]" by (cases xs rule: rev_cases) auto
      with t have tl: "fifo_tail l = Some t" by simp
      from p xs have py: "path fifo_next (fifo_cells l) (fifo_head l) ys (Some t)"
        by (auto simp: path_append)
      from d xs have tny: "t \<notin> set ys" by auto
      have "path fifo_next cells3 (fifo_head l) ys (Some t) = path fifo_next (fifo_cells l @ [fresh]) (fifo_head l) ys (Some t)"
      proof (rule path_cong)
        show "length cells3 = length (fifo_cells l @ [fresh])" using len3 by (simp add: n_def)
      next
        fix a assume a: "a \<in> set ys"
        with xs v [of a] have an: "a < n" by (simp add: n_def)
        from a tny tl have "fifo_tail l \<noteq> Some a" by auto
        from next3 [OF an this] an
        show "fifo_next (cells3 ! a) = fifo_next ((fifo_cells l @ [fresh]) ! a)"
          by (simp add: nth_append n_def)
      qed
      with py have py3: "path fifo_next cells3 (fifo_head l) ys (Some t)"
        by (simp add: path_extend)
      from p False have "fifo_head l \<noteq> None" by (cases xs) auto
      then have hd': "fifo_head l' = fifo_head l" by (auto simp: l'_def)
      from tn [OF tl] len3 have "t < length cells3" by simp
      with py3 tail3 [OF tl] new3 len3 show ?thesis
        by (simp add: xs hd' path_append)
    qed
    have "fifo_inv l' (xs @ [n])"
      unfolding fifo_inv_def
    proof (intro conjI ballI allI impI)
      show "0 < fifo_capacity l'" using cap by (simp add: l'_def)
      show "len (fifo_cache l') \<le> fifo_capacity l'" using room by (simp add: l'_def)
      show "path fifo_next (fifo_cells l') (fifo_head l') (xs @ [n]) None"
        using pth by (simp add: l'_def)
      show "distinct (xs @ [n])" using d nx by simp
    next
      fix a assume "a \<in> set (xs @ [n])"
      then consider "a = n" | "a \<in> set xs" by auto
      then show "\<exists>k. fifo_key (fifo_cells l' ! a) = Some k \<and> fmlookup (fifo_cache l') k = Some a"
      proof cases
        case 1
        then show ?thesis using new3 by (simp add: l'_def)
      next
        case 2
        from b [OF 2] obtain k where k: "fifo_key (fifo_cells l ! a) = Some k"
          and ka: "fmlookup (fifo_cache l) k = Some a" by auto
        from ka None have "k \<noteq> key" by auto
        with k ka key3 [of a] v [OF 2] show ?thesis by (simp add: l'_def n_def)
      qed
    next
      fix k a assume ka': "fmlookup (fifo_cache l') k = Some a"
      show "a \<in> set (xs @ [n])"
        using ka' c [of k a] by (auto simp: l'_def split: if_splits)
      show "fifo_key (fifo_cells l' ! a) = Some k"
      proof (cases "k = key")
        case True
        with ka' have "a = n" by (simp add: l'_def)
        with True new3 show ?thesis by (simp add: l'_def)
      next
        case False
        with ka' have ka: "fmlookup (fifo_cache l) k = Some a" by (simp add: l'_def)
        from c [OF ka] v [of a] key3 [of a] show ?thesis by (simp add: l'_def n_def)
      qed
    next
      show "fifo_tail l' = Some (last (xs @ [n]))" by (simp add: l'_def)
    next
      fix t assume "fifo_tail l' = Some t"
      then show "t < length (fifo_cells l')" using len3 by (auto simp: l'_def)
    qed
    moreover have "fifo_capacity l' = fifo_capacity l" "fifo_stopped l' = fifo_stopped l"
      by (simp_all add: l'_def)
    ultimately show ?thesis unfolding st by blast
  qed
qed

lemma fifo_set_inv:
  assumes "fifo_inv l xs" and "\<not> fifo_isStopped l"
  shows "\<exists>l' xs'. fifo_set l key val = Inr l' \<and> fifo_inv l' xs' \<and> \<not> fifo_isStopped l'
           \<and> fifo_capacity l' = fifo_capacity l"
proof -
  from fifo_evict_inv [OF assms(1)] obtain l1 xs1
    where e: "fifo_evict l = Inr l1" and i1: "fifo_inv l1 xs1"
      and r: "len (fifo_cache l1) < fifo_capacity l"
      and c1: "fifo_capacity l1 = fifo_capacity l" and s1: "fifo_stopped l1 = fifo_stopped l"
    by blast
  from r c1 have "len (fifo_cache l1) < fifo_capacity l1" by simp
  from fifo_store_inv [OF i1 this, of key val] obtain xs'
    where "fifo_inv (fifo_store l1 key val) xs'"
      and "fifo_capacity (fifo_store l1 key val) = fifo_capacity l1"
      and "fifo_stopped (fifo_store l1 key val) = fifo_stopped l1"
    by blast
  with e c1 s1 assms(2) show ?thesis
    by (auto simp: fifo_set_def fifo_isStopped_def)
qed

lemma fifo_sets_inv:
  assumes "fifo_inv l xs" and "\<not> fifo_isStopped l"
  shows "\<exists>l' xs'. fifo_sets l kvs = Inr l' \<and> fifo_inv l' xs' \<and> \<not> fifo_isStopped l'
           \<and> fifo_capacity l' = fifo_capacity l"
  using assms
proof (induction kvs arbitrary: l xs)
  case Nil
  then show ?case by auto
next
  case (Cons kv kvs)
  obtain k v where kv: "kv = (k, v)" by (cases kv)
  from fifo_set_inv [OF Cons.prems, of k v] obtain l1 xs1
    where s: "fifo_set l k v = Inr l1" and i: "fifo_inv l1 xs1" and ns: "\<not> fifo_isStopped l1"
      and c: "fifo_capacity l1 = fifo_capacity l" by blast
  from Cons.IH [OF i ns] obtain l' xs'
    where "fifo_sets l1 kvs = Inr l'" and "fifo_inv l' xs'" and "\<not> fifo_isStopped l'"
      and "fifo_capacity l' = fifo_capacity l1" by blast
  with s c kv show ?case by auto
qed

lemma lifo_inv_New:
  assumes "0 < n"
  shows "\<exists>l. NewLIFO n = Inr l \<and> lifo_inv l [] \<and> \<not> lifo_isStopped l \<and> lifo_capacity l = n"
  using assms by (simp add: NewLIFO_def lifo_inv_def lifo_isStopped_def)

lemma lifo_evict_inv:
  assumes inv: "lifo_inv l xs"
  shows "\<exists>l' xs'. lifo_evict l = Inr l' \<and> lifo_inv l' xs'
           \<and> len (lifo_cache l') < lifo_capacity l
           \<and> lifo_capacity l' = lifo_capacity l \<and> lifo_stopped l' = lifo_stopped l"
proof (cases "lifo_capacity l \<le> len (lifo_cache l)")
  case False
  with inv show ?thesis by (auto simp: lifo_evict_def)
next
  case True
  from inv have cap: "0 < lifo_capacity l" and le: "len (lifo_cache l) \<le> lifo_capacity l"
    and p: "path lifo_next (lifo_cells l) (lifo_head l) xs None" and d: "distinct xs"
    and b: "\<And>a. a \<in> set xs \<Longrightarrow>
              \<exists>k. lifo_key (lifo_cells l ! a) = Some k \<and> fmlookup (lifo_cache l) k = Some a"
    and c: "\<And>k a. fmlookup (lifo_cache l) k = Some a \<Longrightarrow>
              a \<in> set xs \<and> lifo_key (lifo_cells l ! a) = Some k"
    unfolding lifo_inv_def by blast+
  from True cap have "0 < len (lifo_cache l)" by simp
  then obtain k0 a0 where "fmlookup (lifo_cache l) k0 = Some a0"
    using len_pos_lookup by blast
  with c have "xs \<noteq> []" by fastforce
  then obtain h ys where xs: "xs = h # ys" by (cases xs) auto
  with p have hd: "lifo_head l = Some h" and hv: "h < length (lifo_cells l)"
    and py: "path lifo_next (lifo_cells l) (lifo_next (lifo_cells l ! h)) ys None"
    by auto
  from b [of h] xs obtain hk where hk: "lifo_key (lifo_cells l ! h) = Some hk"
    and lk: "fmlookup (lifo_cache l) hk = Some h" by auto
  define l' where "l' = l\<lparr>lifo_cache := fmdrop hk (lifo_cache l),
                           lifo_cells := (lifo_cells l)[h := lifo_zero],
                           lifo_head := lifo_next (lifo_cells l ! h)\<rparr>"
  have ev: "lifo_evict l = Inr l'"
    using True hd hv hk by (simp add: lifo_evict_def l'_def)
  from lk have dom: "hk |\<in>| fmdom (lifo_cache l)" by (rule fmdomI)
  have len': "len (lifo_cache l') = len (lifo_cache l) - 1"
    using dom by (simp add: l'_def)
  from d xs have hn: "h \<notin> set ys" and dy: "distinct ys" by auto
  have "lifo_inv l' ys"
    unfolding lifo_inv_def
  proof (intro conjI ballI allI impI)
    show "0 < lifo_capacity l'" using cap by (simp add: l'_def)
    show "len (lifo_cache l') \<le> lifo_capacity l'" using len' le by (simp add: l'_def)
    show "path lifo_next (lifo_cells l') (lifo_head l') ys None"
      using py hn by (simp add: l'_def path_update_notin)
    show "distinct ys" by (rule dy)
  next
    fix a assume a: "a \<in> set ys"
    with hn have ne: "a \<noteq> h" by auto
    from a xs b [of a] obtain k where k: "lifo_key (lifo_cells l ! a) = Some k"
      and ka: "fmlookup (lifo_cache l) k = Some a" by auto
    from ka lk ne have "k \<noteq> hk" by auto
    with k ka ne show "\<exists>k. lifo_key (lifo_cells l' ! a) = Some k \<and> fmlookup (lifo_cache l') k = Some a"
      by (auto simp: l'_def)
  next
    fix k a assume "fmlookup (lifo_cache l') k = Some a"
    then have kn: "k \<noteq> hk" and ka: "fmlookup (lifo_cache l) k = Some a"
      by (auto simp: l'_def split: if_splits)
    from c [OF ka] have ax: "a \<in> set xs" and kk: "lifo_key (lifo_cells l ! a) = Some k" by auto
    from kk hk kn have ne: "a \<noteq> h" by auto
    with ax xs show "a \<in> set ys" by auto
    from ne kk show "lifo_key (lifo_cells l' ! a) = Some k" by (simp add: l'_def)
  qed
  moreover have "len (lifo_cache l') < lifo_capacity l" using len' le by simp
  moreover have "lifo_capacity l' = lifo_capacity l" "lifo_stopped l' = lifo_stopped l"
    by (simp_all add: l'_def)
  ultimately show ?thesis using ev by blast
qed

lemma lifo_store_inv:
  assumes inv: "lifo_inv l xs" and room: "len (lifo_cache l) < lifo_capacity l"
  shows "\<exists>xs'. lifo_inv (lifo_store l key val) xs'
           \<and> lifo_capacity (lifo_store l key val) = lifo_capacity l
           \<and> lifo_stopped (lifo_store l key val) = lifo_stopped l"
proof -
  from inv have cap: "0 < lifo_capacity l"
    and p: "path lifo_next (lifo_cells l) (lifo_head l) xs None" and d: "distinct xs"
    and b: "\<And>a. a \<in> set xs \<Longrightarrow>
              \<exists>k. lifo_key (lifo_cells l ! a) = Some k \<and> fmlookup (lifo_cache l) k = Some a"
    and c: "\<And>k a. fmlookup (lifo_cache l) k = Some a \<Longrightarrow>
              a \<in> set xs \<and> lifo_key (lifo_cells l ! a) = Some k"
    unfolding lifo_inv_def by blast+
  have v: "a < length (lifo_cells l)" if "a \<in> set xs" for a
    using path_valid [OF p that] .
  show ?thesis
  proof (cases "fmlookup (lifo_cache l) key")
    case (Some node)
    define l' where "l' = l\<lparr>lifo_cells := (lifo_cells l)[node := (lifo_cells l ! node)\<lparr>lifo_value := val\<rparr>]\<rparr>"
    have st: "lifo_store l key val = l'" using Some by (simp add: lifo_store_def l'_def)
    have key_same: "lifo_key (lifo_cells l' ! a) = lifo_key (lifo_cells l ! a)" if "a < length (lifo_cells l)" for a
      using that by (cases "a = node") (simp_all add: l'_def)
    have "lifo_inv l' xs"
      unfolding lifo_inv_def
    proof (intro conjI ballI allI impI)
      show "0 < lifo_capacity l'" using cap by (simp add: l'_def)
      show "len (lifo_cache l') \<le> lifo_capacity l'" using room by (simp add: l'_def)
      show "path lifo_next (lifo_cells l') (lifo_head l') xs None"
        using p by (simp add: l'_def path_update_same)
      show "distinct xs" by (rule d)
    next
      fix a assume a: "a \<in> set xs"
      from b [OF a] key_same [OF v [OF a]]
      show "\<exists>k. lifo_key (lifo_cells l' ! a) = Some k \<and> fmlookup (lifo_cache l') k = Some a"
        by (simp add: l'_def)
    next
      fix k a assume "fmlookup (lifo_cache l') k = Some a"
      then have ka: "fmlookup (lifo_cache l) k = Some a" by (simp add: l'_def)
      from c [OF ka] show "a \<in> set xs" by simp
      from c [OF ka] key_same [OF v, of a] show "lifo_key (lifo_cells l' ! a) = Some k" by simp
    qed
    moreover have "lifo_capacity l' = lifo_capacity l" "lifo_stopped l' = lifo_stopped l"
      by (simp_all add: l'_def)
    ultimately show ?thesis unfolding st by blast
  next
    case None
    define n where "n = length (lifo_cells l)"
    define fresh :: "('a, 'b) lifoListItem"
      where "fresh = \<lparr>lifo_next = None, lifo_key = Some key, lifo_value = 0\<rparr>"
    define cells1 where "cells1 = lifo_cells l @ [fresh]"
    define cells2 where "cells2 = cells1[n := (cells1 ! n)\<lparr>lifo_next := lifo_head l\<rparr>]"
    define cells3 where "cells3 = cells2[n := (cells2 ! n)\<lparr>lifo_value := val\<rparr>]"
    define l' where "l' = l\<lparr>lifo_cache := fmupd key n (lifo_cache l), lifo_cells := cells3,
                            lifo_head := Some n\<rparr>"
    have st: "lifo_store l key val = l'"
      unfolding lifo_store_def l'_def cells3_def cells2_def cells1_def n_def fresh_def Let_def
      using None by simp
    have len3: "length cells3 = Suc n"
      by (simp add: cells3_def cells2_def cells1_def n_def)
    have new3: "lifo_next (cells3 ! n) = lifo_head l \<and> lifo_key (cells3 ! n) = Some key"
      by (simp add: cells3_def cells2_def cells1_def n_def fresh_def)
    have old3: "cells3 ! a = lifo_cells l ! a" if "a < n" for a
      using that by (simp add: cells3_def cells2_def cells1_def n_def nth_append)
    have nx: "n \<notin> set xs" using v by (auto simp: n_def)
    have "path lifo_next cells3 (lifo_head l) xs None = path lifo_next (lifo_cells l @ [fresh]) (lifo_head l) xs None"
    proof (rule path_cong)
      show "length cells3 = length (lifo_cells l @ [fresh])" using len3 by (simp add: n_def)
    next
      fix a assume "a \<in> set xs"
      with v [of a] have an: "a < n" by (simp add: n_def)
      from old3 [OF an] an
      show "lifo_next (cells3 ! a) = lifo_next ((lifo_cells l @ [fresh]) ! a)"
        by (simp add: nth_append n_def)
    qed
    with p have px: "path lifo_next cells3 (lifo_head l) xs None"
      by (simp add: path_extend)
    have "lifo_inv l' (n # xs)"
      unfolding lifo_inv_def
    proof (intro conjI ballI allI impI)
      show "0 < lifo_capacity l'" using cap by (simp add: l'_def)
      show "len (lifo_cache l') \<le> lifo_capacity l'" using room by (simp add: l'_def)
      show "path lifo_next (lifo_cells l') (lifo_head l') (n # xs) None"
        using px new3 len3 by (simp add: l'_def)
      show "distinct (n # xs)" using d nx by simp
    next
      fix a assume "a \<in> set (n # xs)"
      then consider "a = n" | "a \<in> set xs" by auto
      then show "\<exists>k. lifo_key (lifo_cells l' ! a) = Some k \<and> fmlookup (lifo_cache l') k = Some a"
      proof cases
        case 1
        then show ?thesis using new3 by (simp add: l'_def)
      next
        case 2
        from b [OF 2] obtain k where k: "lifo_key (lifo_cells l ! a) = Some k"
          and ka: "fmlookup (lifo_cache l) k = Some a" by auto
        from ka None have "k \<noteq> key" by auto
        with k ka old3 [of a] v [OF 2] show ?thesis by (simp add: l'_def n_def)
      qed
    next
      fix k a assume ka': "fmlookup (lifo_cache l') k = Some a"
      show "a \<in> set (n # xs)"
        using ka' c [of k a] by (auto simp: l'_def split: if_splits)
      show "lifo_key (lifo_cells l' ! a) = Some k"
      proof (cases "k = key")
        case True
        with ka' have "a = n" by (simp add: l'_def)
        with True new3 show ?thesis by (simp add: l'_def)
      next
        case False
        with ka' have ka: "fmlookup (lifo_cache l) k = Some a" by (simp add: l'_def)
        from c [OF ka] v [of a] old3 [of a] show ?thesis by (simp add: l'_def n_def)
      qed
    qed
    moreover have "lifo_capacity l' = lifo_capacity l" "lifo_stopped l' = lifo_stopped l"
      by (simp_all add: l'_def)
    ultimately show ?thesis unfolding st by blast
  qed
qed

lemma lifo_set_inv:
  assumes "lifo_inv l xs" and "\<not> lifo_isStopped l"
  shows "\<exists>l' xs'. lifo_set l key val = Inr l' \<and> lifo_inv l' xs' \<and> \<not> lifo_isStopped l'
           \<and> lifo_capacity l' = lifo_capacity l"
proof -
  from lifo_evict_inv [OF assms(1)] obtain l1 xs1
    where e: "lifo_evict l = Inr l1" and i1: "lifo_inv l1 xs1"
      and r: "len (lifo_cache l1) < lifo_capacity l"
      and c1: "lifo_capacity l1 = lifo_capacity l" and s1: "lifo_stopped l1 = lifo_stopped l"
    by blast
  from r c1 have "len (lifo_cache l1) < lifo_capacity l1" by simp
  from lifo_store_inv [OF i1 this, of key val] obtain xs'
    where "lifo_inv (lifo_store l1 key val) xs'"
      and "lifo_capacity (lifo_store l1 key val) = lifo_capacity l1"
      and "lifo_stopped (lifo_store l1 key val) = lifo_stopped l1"
    by blast
  with e c1 s1 assms(2) show ?thesis
    by (auto simp: lifo_set_def lifo_isStopped_def)
qed

lemma lifo_sets_inv:
  assumes "lifo_inv l xs" and "\<not> lifo_isStopped l"
  shows "\<exists>l' xs'. lifo_sets l kvs = Inr l' \<and> lifo_inv l' xs' \<and> \<not> lifo_isStopped l'
           \<and> lifo_capacity l' = lifo_capacity l"
  using assms
proof (induction kvs arbitrary: l xs)
  case Nil
  then show ?case by auto
next
  case (Cons kv kvs)
  obtain k v where kv: "kv = (k, v)" by (cases kv)
  from lifo_set_inv [OF Cons.prems, of k v] obtain l1 xs1
    where s: "lifo_set l k v = Inr l1" and i: "lifo_inv l1 xs1" and ns: "\<not> lifo_isStopped l1"
      and c: "lifo_capacity l1 = lifo_capacity l" by blast
  from Cons.IH [OF i ns] obtain l' xs'
    where "lifo_sets l1 kvs = Inr l'" and "lifo_inv l' xs'" and "\<not> lifo_isStopped l'"
      and "lifo_capacity l' = lifo_capacity l1" by blast
  with s c kv show ?case by auto
qed

lemma nth_update_total: "xs[a := y] ! i = (if a = i \<and> a < length xs then y else xs ! i)"
  by (cases "a < length xs") (simp_all add: nth_list_update list_update_beyond)

lemma lru_moveToTail_noop: "lru_tail l = Some node \<Longrightarrow> lru_moveToTail l node = l"
  by (simp add: lru_moveToTail_def)

lemma lru_moveToTail_length:
  "length (lru_cells (lru_moveToTail l node)) = length (lru_cells l)"
  by (simp add: lru_moveToTail_def Let_def split: option.splits)

lemma lru_moveToTail_head:
  assumes "lru_tail l \<noteq> Some node"
  shows "lru_head (lru_moveToTail l node) =
           (case (if lru_head l = Some node then lru_next (lru_cells l ! node) else lru_head l) of
              None \<Rightarrow> Some node | Some h \<Rightarrow> Some h)"
  using assms by (auto simp: lru_moveToTail_def Let_def)

lemma lru_moveToTail_fields:
  fixes l :: "('k, 'v) LRU" and node :: nat
  defines "c \<equiv> lru_cells l" and "c' \<equiv> lru_cells (lru_moveToTail l node)"
  assumes nt: "lru_tail l \<noteq> Some node" and nv: "node < length c"
    and np: "lru_prev (c ! node) \<noteq> Some node" and nn: "lru_next (c ! node) \<noteq> Some node"
    and iv: "i < length c"
  shows "lru_next (c' ! i) =
           (if i = node then None
            else if lru_tail l = Some i then Some node
            else if lru_prev (c ! node) = Some i then lru_next (c ! node)
            else lru_next (c ! i))"
    and "lru_prev (c' ! i) =
           (if i = node then lru_tail l
            else if lru_next (c ! node) = Some i then lru_prev (c ! node)
            else lru_prev (c ! i))"
    and "lru_key (c' ! i) = lru_key (c ! i)"
    and "lru_value (c' ! i) = lru_value (c ! i)"
proof -
  define c1 where "c1 = (case lru_prev (c ! node) of None \<Rightarrow> c
                          | Some p \<Rightarrow> c[p := (c ! p)\<lparr>lru_next := lru_next (c ! node)\<rparr>])"
  define c2 where "c2 = (case lru_next (c1 ! node) of None \<Rightarrow> c1
                          | Some n \<Rightarrow> c1[n := (c1 ! n)\<lparr>lru_prev := lru_prev (c1 ! node)\<rparr>])"
  define c3 where "c3 = (case lru_tail l of None \<Rightarrow> c2
                          | Some t \<Rightarrow> c2[t := (c2 ! t)\<lparr>lru_next := Some node\<rparr>])"
  define c4 where "c4 = c3[node := (c3 ! node)\<lparr>lru_next := None, lru_prev := lru_tail l\<rparr>]"
  have c': "c' = c4"
    unfolding c'_def c4_def c3_def c2_def c1_def c_def lru_moveToTail_def Let_def
    using nt by auto
  have l1: "length c1 = length c" by (simp add: c1_def split: option.splits)
  have l2: "length c2 = length c" by (simp add: c2_def l1 split: option.splits)
  have l3: "length c3 = length c" by (simp add: c3_def l2 split: option.splits)
  have n1: "c1 ! node = c ! node"
    using np by (auto simp: c1_def split: option.splits)
  have f1: "lru_next (c1 ! i) = (if lru_prev (c ! node) = Some i then lru_next (c ! node) else lru_next (c ! i))"
       "lru_prev (c1 ! i) = lru_prev (c ! i)" "lru_key (c1 ! i) = lru_key (c ! i)"
       "lru_value (c1 ! i) = lru_value (c ! i)"
    using iv by (auto simp: c1_def nth_update_total split: option.splits)
  have f2: "lru_next (c2 ! i) = lru_next (c1 ! i)"
       "lru_prev (c2 ! i) = (if lru_next (c ! node) = Some i then lru_prev (c ! node) else lru_prev (c1 ! i))"
       "lru_key (c2 ! i) = lru_key (c1 ! i)" "lru_value (c2 ! i) = lru_value (c1 ! i)"
    using iv l1 n1 by (auto simp: c2_def nth_update_total split: option.splits)
  have f3: "lru_next (c3 ! i) = (if lru_tail l = Some i then Some node else lru_next (c2 ! i))"
       "lru_prev (c3 ! i) = lru_prev (c2 ! i)" "lru_key (c3 ! i) = lru_key (c2 ! i)"
       "lru_value (c3 ! i) = lru_value (c2 ! i)"
    using iv l2 by (auto simp: c3_def nth_update_total split: option.splits)
  have f4: "lru_next (c4 ! i) = (if i = node then None else lru_next (c3 ! i))"
       "lru_prev (c4 ! i) = (if i = node then lru_tail l else lru_prev (c3 ! i))"
       "lru_key (c4 ! i) = lru_key (c3 ! i)" "lru_value (c4 ! i) = lru_value (c3 ! i)"
    using iv l3 by (auto simp: c4_def nth_update_total)
  show "lru_next (c' ! i) =
           (if i = node then None
            else if lru_tail l = Some i then Some node
            else if lru_prev (c ! node) = Some i then lru_next (c ! node)
            else lru_next (c ! i))"
    unfolding c' by (simp add: f4 f3 f2 f1)
  show "lru_prev (c' ! i) =
           (if i = node then lru_tail l
            else if lru_next (c ! node) = Some i then lru_prev (c ! node)
            else lru_prev (c ! i))"
    unfolding c' by (simp add: f4 f3 f2 f1)
  show "lru_key (c' ! i) = lru_key (c ! i)" unfolding c' by (simp add: f4 f3 f2 f1)
  show "lru_value (c' ! i) = lru_value (c ! i)" unfolding c' by (simp add: f4 f3 f2 f1)
qed

lemma lru_moveToTail_value:
  "lru_value (lru_cells (lru_moveToTail l node) ! i) = lru_value (lru_cells l ! i)"
proof (cases "lru_tail l = Some node")
  case True
  then show ?thesis by (simp add: lru_moveToTail_noop)
next
  case False
  define c where "c = lru_cells l"
  define c1 where "c1 = (case lru_prev (c ! node) of None \<Rightarrow> c
                          | Some p \<Rightarrow> c[p := (c ! p)\<lparr>lru_next := lru_next (c ! node)\<rparr>])"
  define c2 where "c2 = (case lru_next (c1 ! node) of None \<Rightarrow> c1
                          | Some n \<Rightarrow> c1[n := (c1 ! n)\<lparr>lru_prev := lru_prev (c1 ! node)\<rparr>])"
  define c3 where "c3 = (case lru_tail l of None \<Rightarrow> c2
                          | Some t \<Rightarrow> c2[t := (c2 ! t)\<lparr>lru_next := Some node\<rparr>])"
  define c4 where "c4 = c3[node := (c3 ! node)\<lparr>lru_next := None, lru_prev := lru_tail l\<rparr>]"
  have c': "lru_cells (lru_moveToTail l node) = c4"
    unfolding c4_def c3_def c2_def c1_def c_def lru_moveToTail_def Let_def
    using False by auto
  have "lru_value (c1 ! i) = lru_value (c ! i)"
    by (auto simp: c1_def nth_update_total split: option.splits)
  moreover have "lru_value (c2 ! i) = lru_value (c1 ! i)"
    by (auto simp: c2_def nth_update_total split: option.splits)
  moreover have "lru_value (c3 ! i) = lru_value (c2 ! i)"
    by (auto simp: c3_def nth_update_total split: option.splits)
  moreover have "lru_value (c4 ! i) = lru_value (c3 ! i)"
    by (auto simp: c4_def nth_update_total)
  ultimately show ?thesis by (simp add: c' c_def)
qed

lemma backs_cong:
  assumes "\<And>a. a \<in> set xs \<Longrightarrow> prv (cells' ! a) = prv (cells ! a)"
  shows "backs prv cells' p xs = backs prv cells p xs"
  using assms by (induction xs arbitrary: p) auto

lemma backs_append:
  "backs prv cells p (xs @ ys) \<longleftrightarrow>
     backs prv cells p xs \<and> backs prv cells (if xs = [] then p else Some (last xs)) ys"
  by (induction xs arbitrary: p) auto

lemma lru_inv_New:
  assumes "0 < n"
  shows "\<exists>l. NewLRU n = Inr l \<and> lru_inv l [] \<and> \<not> lru_isStopped l \<and> lru_capacity l = n"
  using assms by (simp add: NewLRU_def lru_inv_def lru_isStopped_def)

lemma lru_evict_order:
  assumes inv: "lru_inv l xs" and full: "lru_capacity l \<le> len (lru_cache l)"
  shows "\<exists>h ys hk l'. xs = h # ys \<and> lru_head l = Some h \<and> lru_key (lru_cells l ! h) = Some hk
           \<and> lru_evict l = Inr l' \<and> lru_inv l' ys \<and> lru_cache l' = fmdrop hk (lru_cache l)
           \<and> len (lru_cache l') < lru_capacity l
           \<and> lru_capacity l' = lru_capacity l \<and> lru_stopped l' = lru_stopped l"
proof -
  from inv obtain p0 where cap: "0 < lru_capacity l" and le: "len (lru_cache l) \<le> lru_capacity l"
    and p: "path lru_next (lru_cells l) (lru_head l) xs None" and d: "distinct xs"
    and bk: "backs lru_prev (lru_cells l) p0 xs"
    and b: "\<And>a. a \<in> set xs \<Longrightarrow>
              \<exists>k. lru_key (lru_cells l ! a) = Some k \<and> fmlookup (lru_cache l) k = Some a"
    and c: "\<And>k a. fmlookup (lru_cache l) k = Some a \<Longrightarrow>
              a \<in> set xs \<and> lru_key (lru_cells l ! a) = Some k"
    and t: "xs \<noteq> [] \<Longrightarrow> lru_tail l = Some (last xs)"
    and tv: "\<And>t. lru_tail l = Some t \<Longrightarrow> t < length (lru_cells l)"
    unfolding lru_inv_def by blast
  from full cap have "0 < len (lru_cache l)" by simp
  then obtain k0 a0 where "fmlookup (lru_cache l) k0 = Some a0"
    using len_pos_lookup by blast
  with c have "xs \<noteq> []" by fastforce
  then obtain h ys where xs: "xs = h # ys" by (cases xs) auto
  with p have hd: "lru_head l = Some h" and hv: "h < length (lru_cells l)"
    and py: "path lru_next (lru_cells l) (lru_next (lru_cells l ! h)) ys None"
    by auto
  from b [of h] xs obtain hk where hk: "lru_key (lru_cells l ! h) = Some hk"
    and lk: "fmlookup (lru_cache l) hk = Some h" by auto
  define cells1 where "cells1 = (lru_cells l)[h := lru_zero]"
  define cells2 where "cells2 = (case lru_next (lru_cells l ! h) of None \<Rightarrow> cells1
                                 | Some n \<Rightarrow> cells1[n := (cells1 ! n)\<lparr>lru_prev := None\<rparr>])"
  define l' where "l' = l\<lparr>lru_cache := fmdrop hk (lru_cache l), lru_cells := cells2,
                           lru_head := lru_next (lru_cells l ! h)\<rparr>"
  have ev: "lru_evict l = Inr l'"
    unfolding lru_evict_def l'_def cells2_def cells1_def Let_def
    using full hd hv hk by simp
  from lk have dom: "hk |\<in>| fmdom (lru_cache l)" by (rule fmdomI)
  have len': "len (lru_cache l') = len (lru_cache l) - 1"
    using dom by (simp add: l'_def)
  from d xs have hn: "h \<notin> set ys" and dy: "distinct ys" by auto
  have v: "a < length (lru_cells l)" if "a \<in> set xs" for a
    using path_valid [OF p that] .
  have len2: "length cells2 = length (lru_cells l)"
    by (simp add: cells2_def cells1_def split: option.splits)
  have same: "lru_next (cells2 ! a) = lru_next (lru_cells l ! a)"
             "lru_key (cells2 ! a) = lru_key (lru_cells l ! a)" if "a \<noteq> h" for a
    using that by (auto simp: cells2_def cells1_def nth_update_total split: option.splits)
  have prev2: "lru_prev (cells2 ! a) =
                 (if lru_next (lru_cells l ! h) = Some a then None else lru_prev (lru_cells l ! a))"
    if "a \<noteq> h" and "a < length (lru_cells l)" for a
    using that by (auto simp: cells2_def cells1_def nth_update_total split: option.splits)
  have bk2: "backs lru_prev cells2 None ys"
  proof (cases ys)
    case Nil
    then show ?thesis by simp
  next
    case (Cons y zs)
    with py have ny: "lru_next (lru_cells l ! h) = Some y" by simp
    from Cons xs d have yh: "y \<noteq> h" and yz: "y \<notin> set zs" and hz: "h \<notin> set zs" by auto
    from bk xs Cons have bz: "backs lru_prev (lru_cells l) (Some y) zs" by simp
    have "backs lru_prev cells2 (Some y) zs = backs lru_prev (lru_cells l) (Some y) zs"
    proof (rule backs_cong)
      fix a assume a: "a \<in> set zs"
      with yz hz have "a \<noteq> y" "a \<noteq> h" by auto
      moreover from a xs Cons have "a < length (lru_cells l)" by (intro v) simp
      ultimately show "lru_prev (cells2 ! a) = lru_prev (lru_cells l ! a)"
        using prev2 [of a] ny by simp
    qed
    moreover have "lru_prev (cells2 ! y) = None"
      using prev2 [of y] yh ny v [of y] xs Cons by simp
    ultimately show ?thesis using bz Cons by simp
  qed
  have "lru_inv l' ys"
    unfolding lru_inv_def
  proof (intro conjI ballI allI impI)
    show "0 < lru_capacity l'" using cap by (simp add: l'_def)
    show "len (lru_cache l') \<le> lru_capacity l'" using len' le by (simp add: l'_def)
    have "path lru_next cells2 (lru_next (lru_cells l ! h)) ys None
            = path lru_next (lru_cells l) (lru_next (lru_cells l ! h)) ys None"
    proof (rule path_cong [OF len2])
      fix a assume "a \<in> set ys"
      with hn have "a \<noteq> h" by auto
      then show "lru_next (cells2 ! a) = lru_next (lru_cells l ! a)" by (rule same)
    qed
    with py show "path lru_next (lru_cells l') (lru_head l') ys None"
      by (simp add: l'_def)
    show "distinct ys" by (rule dy)
    show "\<exists>p0. backs lru_prev (lru_cells l') p0 ys
               \<and> (\<forall>p. p0 = Some p \<longrightarrow> p < length (lru_cells l') \<and> p \<notin> set ys)"
      using bk2 by (intro exI [of _ None]) (simp add: l'_def)
  next
    fix a assume a: "a \<in> set ys"
    with hn have ne: "a \<noteq> h" by auto
    from a xs b [of a] obtain k where k: "lru_key (lru_cells l ! a) = Some k"
      and ka: "fmlookup (lru_cache l) k = Some a" by auto
    from ka lk ne have "k \<noteq> hk" by auto
    with k ka ne same [of a]
    show "\<exists>k. lru_key (lru_cells l' ! a) = Some k \<and> fmlookup (lru_cache l') k = Some a"
      by (auto simp: l'_def)
  next
    fix k a assume "fmlookup (lru_cache l') k = Some a"
    then have kn: "k \<noteq> hk" and ka: "fmlookup (lru_cache l) k = Some a"
      by (auto simp: l'_def split: if_splits)
    from c [OF ka] have ax: "a \<in> set xs" and kk: "lru_key (lru_cells l ! a) = Some k" by auto
    from kk hk kn have ne: "a \<noteq> h" by auto
    with ax xs show "a \<in> set ys" by auto
    from ne kk same [of a] show "lru_key (lru_cells l' ! a) = Some k" by (simp add: l'_def)
  next
    assume "ys \<noteq> []"
    with t xs show "lru_tail l' = Some (last ys)" by (simp add: l'_def)
  next
    fix t assume "lru_tail l' = Some t"
    with tv len2 show "t < length (lru_cells l')" by (simp add: l'_def)
  qed
  moreover have "len (lru_cache l') < lru_capacity l" using len' le by simp
  moreover have "lru_capacity l' = lru_capacity l" "lru_stopped l' = lru_stopped l"
    by (simp_all add: l'_def)
  moreover have "lru_cache l' = fmdrop hk (lru_cache l)" by (simp add: l'_def)
  ultimately show ?thesis using ev xs hd hk by blast
qed

lemma lru_evict_inv:
  assumes inv: "lru_inv l xs"
  shows "\<exists>l' xs'. lru_evict l = Inr l' \<and> lru_inv l' xs'
           \<and> len (lru_cache l') < lru_capacity l
           \<and> lru_capacity l' = lru_capacity l \<and> lru_stopped l' = lru_stopped l"
proof (cases "lru_capacity l \<le> len (lru_cache l)")
  case False
  with inv show ?thesis by (auto simp: lru_evict_def)
next
  case True
  from lru_evict_order [OF inv True] show ?thesis by blast
qed

lemma path_snoc:
  "path nxt cells p (xs @ [a]) q \<longleftrightarrow>
     path nxt cells p xs (Some a) \<and> a < length cells \<and> nxt (cells ! a) = q"
  by (auto simp: path_append)

lemma lru_moveToTail_order:
  assumes inv: "lru_inv l (as @ node # bs)"
  shows "lru_inv (lru_moveToTail l node) (as @ bs @ [node])"
proof (cases "lru_tail l = Some node")
  case True
  from inv have "lru_tail l = Some (last (node # bs))" and "distinct (as @ node # bs)"
    unfolding lru_inv_def by auto
  with True have "bs = []" by (cases bs rule: rev_cases) auto
  with inv True show ?thesis by (simp add: lru_moveToTail_noop)
next
  case nt: False
  define xs where "xs = as @ node # bs"
  define c where "c = lru_cells l"
  define l' where "l' = lru_moveToTail l node"
  define c' where "c' = lru_cells l'"
  have xs: "xs = as @ node # bs" by (rule xs_def)
  have mem: "node \<in> set xs" by (simp add: xs)
  from inv obtain p0 where cap: "0 < lru_capacity l" and le: "len (lru_cache l) \<le> lru_capacity l"
    and p: "path lru_next c (lru_head l) xs None" and d: "distinct xs"
    and bk: "backs lru_prev c p0 xs"
    and st: "\<And>q. p0 = Some q \<Longrightarrow> q < length c \<and> q \<notin> set xs"
    and b: "\<And>a. a \<in> set xs \<Longrightarrow>
              \<exists>k. lru_key (c ! a) = Some k \<and> fmlookup (lru_cache l) k = Some a"
    and cc: "\<And>k a. fmlookup (lru_cache l) k = Some a \<Longrightarrow>
              a \<in> set xs \<and> lru_key (c ! a) = Some k"
    and t: "xs \<noteq> [] \<Longrightarrow> lru_tail l = Some (last xs)"
    and tv: "\<And>t. lru_tail l = Some t \<Longrightarrow> t < length c"
    unfolding lru_inv_def c_def xs_def by blast
  have v: "a < length c" if "a \<in> set xs" for a
    using path_valid [OF p that] .
  from t xs have tl: "lru_tail l = Some (last (node # bs))" by simp
  with nt have "bs \<noteq> []" by auto
  then obtain cs u where bs: "bs = cs @ [u]" by (cases bs rule: rev_cases) auto
  from tl bs have tu: "lru_tail l = Some u" by simp
  from d xs bs have dis: "distinct as" "distinct cs" "node \<notin> set as" "node \<notin> set cs" "u \<notin> set as"
    "u \<notin> set cs" "u \<noteq> node" "set as \<inter> set cs = {}"
    by auto
  obtain b0 bs' where bb: "bs = b0 # bs'" using \<open>bs \<noteq> []\<close> by (cases bs) auto
  from xs bb d have b0: "b0 \<noteq> node" "b0 \<notin> set as" "b0 \<notin> set bs'" "node \<notin> set bs'"
    "set as \<inter> set bs' = {}" "distinct bs'"
    by auto
  \<comment> \<open>what the old links say\<close>
  from p xs have pa: "path lru_next c (lru_head l) as (Some node)"
    and nv: "node < length c"
    and pb: "path lru_next c (lru_next (c ! node)) bs None"
    by (auto simp: path_append)
  from pb bb have nx: "lru_next (c ! node) = Some b0" by simp
  define pr where "pr = (if as = [] then p0 else Some (last as))"
  from bk xs have ba: "backs lru_prev c p0 as" and prn: "lru_prev (c ! node) = pr"
    and bbs: "backs lru_prev c (Some node) bs"
    by (auto simp: backs_append pr_def)
  have np: "lru_prev (c ! node) \<noteq> Some node"
  proof (cases "as = []")
    case True
    with prn st [of node] mem show ?thesis by (auto simp: pr_def)
  next
    case False
    then have "last as \<in> set as" by simp
    with dis prn False show ?thesis by (auto simp: pr_def)
  qed
  have nn: "lru_next (c ! node) \<noteq> Some node" using nx b0 by simp
  have pr_notin: "pr \<noteq> Some a" if "a \<in> set bs" for a
  proof (cases "as = []")
    case True
    with st [of a] that xs show ?thesis by (auto simp: pr_def)
  next
    case False
    then have "last as \<in> set as" by simp
    moreover from d xs that have "a \<notin> set as" by auto
    ultimately have "last as \<noteq> a" by auto
    with False show ?thesis by (simp add: pr_def)
  qed
  \<comment> \<open>the new links\<close>
  have nt': "lru_tail l \<noteq> Some node" by (rule nt)
  have next': "lru_next (c' ! i) =
                 (if i = node then None else if i = u then Some node
                  else if pr = Some i then Some b0 else lru_next (c ! i))"
    and prev': "lru_prev (c' ! i) =
                 (if i = node then Some u else if i = b0 then pr else lru_prev (c ! i))"
    and key': "lru_key (c' ! i) = lru_key (c ! i)"
    if "i < length c" for i
    using lru_moveToTail_fields [OF nt' nv [unfolded c_def] np [unfolded c_def] nn [unfolded c_def]
            that [unfolded c_def]]
    by (auto simp: c'_def l'_def c_def [symmetric] tu prn nx)
  have len': "length c' = length c"
    by (simp add: c'_def l'_def c_def lru_moveToTail_length)
  have head': "lru_head l' = (if as = [] then Some b0 else lru_head l)"
  proof (cases "as = []")
    case True
    with pa have "lru_head l = Some node" by simp
    with True nx show ?thesis
      by (simp add: l'_def lru_moveToTail_head [OF nt'] c_def)
  next
    case False
    then obtain a0 as' where "as = a0 # as'" by (cases as) auto
    with pa dis have "lru_head l = Some a0" "a0 \<noteq> node" by auto
    with False show ?thesis
      by (simp add: l'_def lru_moveToTail_head [OF nt'])
  qed
  define xs' where "xs' = as @ bs @ [node]"
  have set': "set xs' = set xs" by (auto simp: xs'_def xs)
  have dist': "distinct xs'" using d by (auto simp: xs'_def xs)
  \<comment> \<open>the forward chain\<close>
  have p1: "path lru_next c' (lru_head l') as (Some b0)"
  proof (cases as rule: rev_cases)
    case Nil
    then show ?thesis by (simp add: head')
  next
    case (snoc ys a)
    with pa have py: "path lru_next c (lru_head l) ys (Some a)" and av: "a < length c"
      by (auto simp: path_snoc)
    from snoc dis have a: "a \<noteq> node" "a \<noteq> u" "a \<notin> set ys" by auto
    have "path lru_next c' (lru_head l) ys (Some a) = path lru_next c (lru_head l) ys (Some a)"
    proof (rule path_cong [OF len'])
      fix i assume i: "i \<in> set ys" and iv: "i < length c"
      with snoc dis have "i \<noteq> node" "i \<noteq> u" by auto
      moreover from i a snoc have "pr \<noteq> Some i" by (auto simp: pr_def)
      ultimately show "lru_next (c' ! i) = lru_next (c ! i)" using next' [OF iv] by simp
    qed
    moreover have "lru_next (c' ! a) = Some b0"
      using next' [OF av] a snoc by (simp add: pr_def)
    ultimately show ?thesis using py av len' snoc by (simp add: path_snoc head')
  qed
  from pb bs have pc: "path lru_next c (Some b0) cs (Some u)" and uv: "u < length c"
    by (auto simp: path_snoc nx)
  have p2: "path lru_next c' (Some b0) bs (Some node)"
  proof -
    have "path lru_next c' (Some b0) cs (Some u) = path lru_next c (Some b0) cs (Some u)"
    proof (rule path_cong [OF len'])
      fix i assume i: "i \<in> set cs" and iv: "i < length c"
      with dis have "i \<noteq> node" "i \<noteq> u" by auto
      moreover from i bs have "pr \<noteq> Some i" by (intro pr_notin) simp
      ultimately show "lru_next (c' ! i) = lru_next (c ! i)" using next' [OF iv] by simp
    qed
    moreover have "lru_next (c' ! u) = Some node" using next' [OF uv] dis by simp
    ultimately show ?thesis using pc uv len' by (simp add: bs path_snoc)
  qed
  have p3: "path lru_next c' (lru_head l') xs' None"
    unfolding xs'_def path_append
    using p1 p2 nv len' next' [OF nv] bb by auto
  \<comment> \<open>the backward chain\<close>
  have k1: "backs lru_prev c' p0 as"
  proof -
    have "backs lru_prev c' p0 as = backs lru_prev c p0 as"
    proof (rule backs_cong)
      fix i assume i: "i \<in> set as"
      with xs have iv: "i < length c" by (intro v) simp
      from i dis b0 have "i \<noteq> node" "i \<noteq> b0" by auto
      then show "lru_prev (c' ! i) = lru_prev (c ! i)" using prev' [OF iv] by simp
    qed
    with ba show ?thesis by simp
  qed
  have b0v: "b0 < length c" using xs bb by (intro v) simp
  from bbs bb have bs'k: "backs lru_prev c (Some b0) bs'" by simp
  have k2: "backs lru_prev c' pr bs"
  proof -
    have "backs lru_prev c' (Some b0) bs' = backs lru_prev c (Some b0) bs'"
    proof (rule backs_cong)
      fix i assume i: "i \<in> set bs'"
      with xs bb have iv: "i < length c" by (intro v) simp
      from i b0 have "i \<noteq> node" "i \<noteq> b0" by auto
      then show "lru_prev (c' ! i) = lru_prev (c ! i)" using prev' [OF iv] by simp
    qed
    moreover have "lru_prev (c' ! b0) = pr" using prev' [OF b0v] b0 by simp
    ultimately show ?thesis using bs'k bb by simp
  qed
  have k3: "backs lru_prev c' p0 xs'"
    unfolding xs'_def backs_append
    using k1 k2 prev' [OF nv] bs \<open>bs \<noteq> []\<close> by (auto simp: pr_def)
  have "lru_inv l' xs'"
    unfolding lru_inv_def
  proof (intro conjI ballI allI impI)
    show "0 < lru_capacity l'" using cap by (simp add: l'_def lru_moveToTail_flags)
    show "len (lru_cache l') \<le> lru_capacity l'"
      using le by (simp add: l'_def lru_moveToTail_flags lru_moveToTail_cache)
    show "path lru_next (lru_cells l') (lru_head l') xs' None" using p3 by (simp add: c'_def)
    show "distinct xs'" by (rule dist')
    show "\<exists>p0. backs lru_prev (lru_cells l') p0 xs'
               \<and> (\<forall>p. p0 = Some p \<longrightarrow> p < length (lru_cells l') \<and> p \<notin> set xs')"
      using k3 st len' set' by (intro exI [of _ p0]) (simp add: c'_def)
  next
    fix a assume "a \<in> set xs'"
    then have a: "a \<in> set xs" by (simp add: set')
    from b [OF a] key' [OF v [OF a]]
    show "\<exists>k. lru_key (lru_cells l' ! a) = Some k \<and> fmlookup (lru_cache l') k = Some a"
      by (simp add: c'_def l'_def lru_moveToTail_cache)
  next
    fix k a assume "fmlookup (lru_cache l') k = Some a"
    then have ka: "fmlookup (lru_cache l) k = Some a" by (simp add: l'_def lru_moveToTail_cache)
    from cc [OF ka] show "a \<in> set xs'" by (simp add: set')
    from cc [OF ka] key' [OF v, of a] show "lru_key (lru_cells l' ! a) = Some k"
      by (simp add: c'_def)
  next
    show "lru_tail l' = Some (last xs')" by (simp add: l'_def lru_moveToTail_tail xs'_def)
  next
    fix t assume "lru_tail l' = Some t"
    then have "t = node" by (simp add: l'_def lru_moveToTail_tail)
    with nv len' show "t < length (lru_cells l')" by (simp add: c'_def)
  qed
  then show ?thesis unfolding l'_def xs'_def .
qed

lemma lru_moveToTail_inv:
  assumes inv: "lru_inv l xs" and mem: "node \<in> set xs"
  shows "\<exists>xs'. lru_inv (lru_moveToTail l node) xs'"
proof -
  from mem obtain as bs where "xs = as @ node # bs" by (auto simp: in_set_conv_decomp)
  with inv have "lru_inv (lru_moveToTail l node) (as @ bs @ [node])"
    by (simp add: lru_moveToTail_order)
  then show ?thesis ..
qed

lemma lru_inv_value:
  assumes inv: "lru_inv l xs"
  shows "lru_inv (l\<lparr>lru_cells := (lru_cells l)[node := (lru_cells l ! node)\<lparr>lru_value := val\<rparr>]\<rparr>) xs"
proof -
  define c where "c = lru_cells l"
  define c1 where "c1 = c[node := (c ! node)\<lparr>lru_value := val\<rparr>]"
  have same: "lru_next (c1 ! i) = lru_next (c ! i)" "lru_prev (c1 ! i) = lru_prev (c ! i)"
    "lru_key (c1 ! i) = lru_key (c ! i)" for i
    by (simp_all add: c1_def nth_update_total)
  have len1: "length c1 = length c" by (simp add: c1_def)
  have "path lru_next c1 p xs q = path lru_next c p xs q" for p q
    by (rule path_cong [OF len1]) (simp add: same)
  moreover have "backs lru_prev c1 p xs = backs lru_prev c p xs" for p
    by (rule backs_cong) (simp add: same)
  ultimately have "lru_inv (l\<lparr>lru_cells := c1\<rparr>) xs"
    using inv [unfolded lru_inv_def, folded c_def] unfolding lru_inv_def
    by (simp add: same len1)
  then show ?thesis by (simp add: c1_def c_def)
qed

lemma lru_store_present:
  assumes inv: "lru_inv l (as @ node # bs)" and lk: "fmlookup (lru_cache l) key = Some node"
  shows "\<exists>l'. lru_store l key val = Inr l' \<and> lru_inv l' (as @ bs @ [node])
           \<and> lru_cache l' = lru_cache l \<and> lru_value (lru_cells l' ! node) = val
           \<and> lru_capacity l' = lru_capacity l \<and> lru_stopped l' = lru_stopped l"
proof -
  from inv have "path lru_next (lru_cells l) (lru_head l) (as @ node # bs) None"
    unfolding lru_inv_def by blast
  from path_valid [OF this] have nv: "node < length (lru_cells l)" by simp
  define l1 where "l1 = l\<lparr>lru_cells := (lru_cells l)[node := (lru_cells l ! node)\<lparr>lru_value := val\<rparr>]\<rparr>"
  have "lru_inv l1 (as @ node # bs)" unfolding l1_def by (rule lru_inv_value [OF inv])
  then have "lru_inv (lru_moveToTail l1 node) (as @ bs @ [node])" by (rule lru_moveToTail_order)
  moreover have "lru_store l key val = Inr (lru_moveToTail l1 node)"
    using lk nv by (simp add: lru_store_def l1_def)
  moreover have "lru_capacity (lru_moveToTail l1 node) = lru_capacity l"
    "lru_stopped (lru_moveToTail l1 node) = lru_stopped l"
    "lru_cache (lru_moveToTail l1 node) = lru_cache l"
    by (simp_all add: lru_moveToTail_flags lru_moveToTail_cache l1_def)
  moreover have "lru_value (lru_cells (lru_moveToTail l1 node) ! node) = val"
    using nv by (simp add: lru_moveToTail_value l1_def)
  ultimately show ?thesis by blast
qed

lemma lru_store_new:
  assumes inv: "lru_inv l xs" and room: "len (lru_cache l) < lru_capacity l"
    and absent: "fmlookup (lru_cache l) key = None"
  shows "\<exists>l'. lru_store l key val = Inr l' \<and> lru_inv l' (xs @ [length (lru_cells l)])
           \<and> lru_cache l' = fmupd key (length (lru_cells l)) (lru_cache l)
           \<and> lru_key (lru_cells l' ! length (lru_cells l)) = Some key
           \<and> lru_value (lru_cells l' ! length (lru_cells l)) = val
           \<and> lru_capacity l' = lru_capacity l \<and> lru_stopped l' = lru_stopped l"
proof -
  define c where "c = lru_cells l"
  define n where "n = length c"
  define fresh :: "('a, 'b) lruListItem"
    where "fresh = \<lparr>lru_prev = None, lru_next = None, lru_key = Some key, lru_value = 0\<rparr>"
  define c1 where "c1 = (c @ [fresh])[n := ((c @ [fresh]) ! n)\<lparr>lru_value := val\<rparr>]"
  define l1 where "l1 = l\<lparr>lru_cache := fmupd key n (lru_cache l), lru_cells := c1\<rparr>"
  define l' where "l' = lru_moveToTail l1 n"
  define c' where "c' = lru_cells l'"
  have st: "lru_store l key val = Inr l'"
    unfolding lru_store_def l'_def l1_def c1_def n_def c_def fresh_def Let_def
    using absent by simp
  from inv obtain p0 where cap: "0 < lru_capacity l"
    and p: "path lru_next c (lru_head l) xs None" and d: "distinct xs"
    and bk: "backs lru_prev c p0 xs"
    and sp: "\<And>q. p0 = Some q \<Longrightarrow> q < length c \<and> q \<notin> set xs"
    and b: "\<And>a. a \<in> set xs \<Longrightarrow>
              \<exists>k. lru_key (c ! a) = Some k \<and> fmlookup (lru_cache l) k = Some a"
    and cc: "\<And>k a. fmlookup (lru_cache l) k = Some a \<Longrightarrow>
              a \<in> set xs \<and> lru_key (c ! a) = Some k"
    and t: "xs \<noteq> [] \<Longrightarrow> lru_tail l = Some (last xs)"
    and tv: "\<And>t. lru_tail l = Some t \<Longrightarrow> t < length c"
    unfolding lru_inv_def c_def by blast
  have v: "a < n" if "a \<in> set xs" for a
    using path_valid [OF p that] by (simp add: n_def)
  have nx: "n \<notin> set xs" using v by auto
  have len1: "length c1 = Suc n" by (simp add: c1_def n_def)
  have new1: "lru_prev (c1 ! n) = None" "lru_next (c1 ! n) = None" "lru_key (c1 ! n) = Some key"
    by (simp_all add: c1_def n_def fresh_def)
  have old1: "c1 ! i = c ! i" if "i < n" for i
    using that by (simp add: c1_def n_def nth_append)
  have nt: "lru_tail l1 \<noteq> Some n" using tv by (auto simp: l1_def n_def)
  have flds:
    "lru_next (c' ! i) = (if i = n then None else if lru_tail l = Some i then Some n else lru_next (c1 ! i))"
    "lru_prev (c' ! i) = (if i = n then lru_tail l else lru_prev (c1 ! i))"
    "lru_key (c' ! i) = lru_key (c1 ! i)"
    if "i < Suc n" for i
    using lru_moveToTail_fields [of l1 n i] nt that new1 len1
    by (simp_all add: c'_def l'_def l1_def)
  have len': "length c' = Suc n"
    by (simp add: c'_def l'_def lru_moveToTail_length l1_def len1)
  have hv: "lru_head l \<noteq> Some n"
    using p v by (cases xs) auto
  have head': "lru_head l' = (case lru_head l of None \<Rightarrow> Some n | Some h \<Rightarrow> Some h)"
    using hv by (simp add: l'_def lru_moveToTail_head [OF nt]) (simp add: l1_def)
  have next_old: "lru_next (c' ! i) = lru_next ((c @ [fresh]) ! i)"
    if "i < n" and "lru_tail l \<noteq> Some i" for i
    using that flds(1) [of i] old1 [of i] by (simp add: nth_append n_def)
  have pth: "path lru_next c' (lru_head l') (xs @ [n]) None"
  proof (cases xs rule: rev_cases)
    case Nil
    with p have "lru_head l = None" by simp
    then show ?thesis using Nil len' flds(1) [of n] by (simp add: head')
  next
    case (snoc ys u)
    with t have tu: "lru_tail l = Some u" by simp
    from p snoc have py: "path lru_next c (lru_head l) ys (Some u)"
      by (auto simp: path_snoc)
    from d snoc have un: "u \<notin> set ys" by auto
    have "path lru_next c' (lru_head l) ys (Some u) = path lru_next (c @ [fresh]) (lru_head l) ys (Some u)"
    proof (rule path_cong)
      show "length c' = length (c @ [fresh])" using len' by (simp add: n_def)
    next
      fix a assume a: "a \<in> set ys"
      with snoc v [of a] have an: "a < n" by simp
      from a un tu have "lru_tail l \<noteq> Some a" by auto
      from next_old [OF an this] show "lru_next (c' ! a) = lru_next ((c @ [fresh]) ! a)" .
    qed
    with py have py': "path lru_next c' (lru_head l) ys (Some u)"
      by (simp add: path_extend)
    from snoc have "xs \<noteq> []" by simp
    with p have "lru_head l \<noteq> None" by (cases xs) auto
    then have hd': "lru_head l' = lru_head l" by (auto simp: head')
    have un': "u < n" using v [of u] snoc by simp
    then have "lru_next (c' ! u) = Some n" using flds(1) [of u] tu by simp
    with py' un' len' flds(1) [of n] show ?thesis
      by (simp add: snoc hd' path_append)
  qed
  define p0' where "p0' = (if xs = [] then lru_tail l else p0)"
  have bks: "backs lru_prev c' p0' (xs @ [n])"
  proof -
    have "backs lru_prev c' p0 xs = backs lru_prev c p0 xs"
    proof (rule backs_cong)
      fix a assume "a \<in> set xs"
      then have "a < n" by (rule v)
      then show "lru_prev (c' ! a) = lru_prev (c ! a)"
        using flds(2) [of a] old1 [of a] by simp
    qed
    with bk have "backs lru_prev c' p0 xs" by simp
    moreover have "lru_prev (c' ! n) = lru_tail l" using flds(2) [of n] by simp
    ultimately show ?thesis using t by (auto simp: backs_append p0'_def)
  qed
  have stale: "q < length c' \<and> q \<notin> set (xs @ [n])" if "p0' = Some q" for q
  proof (cases "xs = []")
    case True
    with that have "lru_tail l = Some q" by (simp add: p0'_def)
    from tv [OF this] True show ?thesis by (simp add: len' n_def)
  next
    case False
    with that have "p0 = Some q" by (simp add: p0'_def)
    from sp [OF this] show ?thesis by (simp add: len' n_def)
  qed
  have "lru_inv l' (xs @ [n])"
    unfolding lru_inv_def
  proof (intro conjI ballI allI impI)
    show "0 < lru_capacity l'" using cap by (simp add: l'_def lru_moveToTail_flags l1_def)
    show "len (lru_cache l') \<le> lru_capacity l'"
      using room by (simp add: l'_def lru_moveToTail_flags lru_moveToTail_cache l1_def)
    show "path lru_next (lru_cells l') (lru_head l') (xs @ [n]) None"
      using pth by (simp add: c'_def)
    show "distinct (xs @ [n])" using d nx by simp
    show "\<exists>p0. backs lru_prev (lru_cells l') p0 (xs @ [n])
               \<and> (\<forall>p. p0 = Some p \<longrightarrow> p < length (lru_cells l') \<and> p \<notin> set (xs @ [n]))"
      using bks stale by (intro exI [of _ p0']) (simp add: c'_def)
  next
    fix a assume "a \<in> set (xs @ [n])"
    then consider "a = n" | "a \<in> set xs" by auto
    then show "\<exists>k. lru_key (lru_cells l' ! a) = Some k \<and> fmlookup (lru_cache l') k = Some a"
    proof cases
      case 1
      then show ?thesis using flds(3) [of n] new1
        by (simp add: c'_def [symmetric]) (simp add: l'_def lru_moveToTail_cache l1_def)
    next
      case 2
      from b [OF 2] obtain k where k: "lru_key (c ! a) = Some k"
        and ka: "fmlookup (lru_cache l) k = Some a" by auto
      from ka absent have "k \<noteq> key" by auto
      with k ka flds(3) [of a] old1 [of a] v [OF 2] show ?thesis
        by (simp add: c'_def [symmetric]) (simp add: l'_def lru_moveToTail_cache l1_def)
    qed
  next
    fix k a assume ka': "fmlookup (lru_cache l') k = Some a"
    then have ka1: "fmlookup (fmupd key n (lru_cache l)) k = Some a"
      by (simp add: l'_def lru_moveToTail_cache l1_def)
    show "a \<in> set (xs @ [n])"
      using ka1 cc [of k a] by (auto split: if_splits)
    show "lru_key (lru_cells l' ! a) = Some k"
    proof (cases "k = key")
      case True
      with ka1 have "a = n" by simp
      with True new1 flds(3) [of n] show ?thesis by (simp add: c'_def)
    next
      case False
      with ka1 have ka: "fmlookup (lru_cache l) k = Some a" by simp
      from cc [OF ka] v [of a] old1 [of a] flds(3) [of a] show ?thesis by (simp add: c'_def)
    qed
  next
    show "lru_tail l' = Some (last (xs @ [n]))" by (simp add: l'_def lru_moveToTail_tail)
  next
    fix t assume "lru_tail l' = Some t"
    then have "t = n" by (simp add: l'_def lru_moveToTail_tail)
    then show "t < length (lru_cells l')" using len' by (simp add: c'_def)
  qed
  moreover have "lru_capacity l' = lru_capacity l" "lru_stopped l' = lru_stopped l"
    by (simp_all add: l'_def lru_moveToTail_flags l1_def)
  moreover have "lru_cache l' = fmupd key n (lru_cache l)"
    by (simp add: l'_def lru_moveToTail_cache l1_def)
  moreover have "lru_key (lru_cells l' ! n) = Some key"
    using flds(3) [of n] new1 by (simp add: c'_def)
  moreover have "lru_value (lru_cells l' ! n) = val"
    by (simp add: l'_def lru_moveToTail_value l1_def c1_def n_def)
  ultimately show ?thesis using st unfolding n_def c_def by blast
qed

lemma lru_store_inv:
  assumes inv: "lru_inv l xs" and room: "len (lru_cache l) < lru_capacity l"
  shows "\<exists>l' xs'. lru_store l key val = Inr l' \<and> lru_inv l' xs'
           \<and> lru_capacity l' = lru_capacity l \<and> lru_stopped l' = lru_stopped l"
proof (cases "fmlookup (lru_cache l) key")
  case (Some node)
  from inv Some have "node \<in> set xs" unfolding lru_inv_def by blast
  then obtain as bs where "xs = as @ node # bs" by (auto simp: in_set_conv_decomp)
  with inv have "lru_inv l (as @ node # bs)" by simp
  from lru_store_present [OF this Some, of val] show ?thesis by blast
next
  case None
  from lru_store_new [OF inv room None, of val] show ?thesis by blast
qed

lemma lru_set_inv:
  assumes "lru_inv l xs" and "\<not> lru_isStopped l"
  shows "\<exists>l' xs'. lru_set l key val = Inr l' \<and> lru_inv l' xs' \<and> \<not> lru_isStopped l'
           \<and> lru_capacity l' = lru_capacity l"
proof -
  from lru_evict_inv [OF assms(1)] obtain l1 xs1
    where e: "lru_evict l = Inr l1" and i1: "lru_inv l1 xs1"
      and r: "len (lru_cache l1) < lru_capacity l"
      and c1: "lru_capacity l1 = lru_capacity l" and s1: "lru_stopped l1 = lru_stopped l"
    by blast
  from r c1 have "len (lru_cache l1) < lru_capacity l1" by simp
  from lru_store_inv [OF i1 this, of key val] obtain l' xs'
    where "lru_store l1 key val = Inr l'" and "lru_inv l' xs'"
      and "lru_capacity l' = lru_capacity l1"
      and "lru_stopped l' = lru_stopped l1"
    by blast
  with e c1 s1 assms(2) show ?thesis
    by (auto simp: lru_set_def lru_isStopped_def)
qed

lemma lru_sets_inv:
  assumes "lru_inv l xs" and "\<not> lru_isStopped l"
  shows "\<exists>l' xs'. lru_sets l kvs = Inr l' \<and> lru_inv l' xs' \<and> \<not> lru_isStopped l'
           \<and> lru_capacity l' = lru_capacity l"
  using assms
proof (induction kvs arbitrary: l xs)
  case Nil
  then show ?case by auto
next
  case (Cons kv kvs)
  obtain k v where kv: "kv = (k, v)" by (cases kv)
  from lru_set_inv [OF Cons.prems, of k v] obtain l1 xs1
    where s: "lru_set l k v = Inr l1" and i: "lru_inv l1 xs1" and ns: "\<not> lru_isStopped l1"
      and c: "lru_capacity l1 = lru_capacity l" by blast
  from Cons.IH [OF i ns] obtain l' xs'
    where "lru_sets l1 kvs = Inr l'" and "lru_inv l' xs'" and "\<not> lru_isStopped l'"
      and "lru_capacity l' = lru_capacity l1" by blast
  with s c kv show ?case by auto
qed

lemma random_inv_New:
  assumes "0 < n"
  shows "\<exists>l. NewRandom n = Inr l \<and> random_inv l \<and> random_capacity l = n"
  using assms by (simp add: NewRandom_def random_inv_def random_isStopped_def)

lemma random_set_inv:
  assumes "random_inv l" and "random_set l key val r"
  shows "\<exists>l'. r = Inr l' \<and> random_inv l' \<and> random_capacity l' = random_capacity l"
  using assms(2)
proof cases
  case stopped
  with assms(1) show ?thesis by (simp add: random_inv_def)
next
  case room
  with assms(1) show ?thesis by (auto simp: random_inv_def random_isStopped_def)
next
  case (evict k)
  with assms(1) show ?thesis by (auto simp: random_inv_def random_isStopped_def)
next
  case nothing
  then have "random_capacity l \<le> len (random_cache l)" and "len (random_cache l) = 0"
    by (simp_all add: len_def fcard_fempty)
  with assms(1) show ?thesis by (simp add: random_inv_def)
qed

lemma random_set_progress:
  assumes "random_inv l"
  shows "\<exists>l'. random_set l key val (Inr l')"
proof (cases "len (random_cache l) < random_capacity l")
  case True
  with assms show ?thesis by (auto simp: random_inv_def intro: random_set.room)
next
  case False
  with assms have "0 < len (random_cache l)" by (simp add: random_inv_def)
  then obtain k a where "fmlookup (random_cache l) k = Some a" using len_pos_lookup by blast
  then have dom: "k |\<in>| fmdom (random_cache l)" by (rule fmdomI)
  from assms have ns: "\<not> random_isStopped l" by (simp add: random_inv_def)
  from False have ge: "random_capacity l \<le> len (random_cache l)" by simp
  from random_set.evict [OF ns ge dom] show ?thesis by blast
qed

lemma random_sets_inv:
  assumes "random_sets l kvs r" and "random_inv l"
  shows "\<exists>l'. r = Inr l' \<and> random_inv l' \<and> random_capacity l' = random_capacity l"
  using assms
proof (induction rule: random_sets.induct)
  case (over l)
  then show ?case by simp
next
  case (halt l k v p kvs)
  from random_set_inv [OF halt(2) halt(1)] show ?case by simp
next
  case (step l k v l1 kvs r)
  from random_set_inv [OF step(4) step(1)] have "random_inv l1"
    and "random_capacity l1 = random_capacity l" by simp_all
  with step(3) show ?case by simp
qed

lemma random_sets_progress:
  assumes "random_inv l"
  shows "\<exists>l'. random_sets l kvs (Inr l')"
  using assms
proof (induction kvs arbitrary: l)
  case Nil
  show ?case by (blast intro: random_sets.over)
next
  case (Cons kv kvs)
  obtain k v where kv: "kv = (k, v)" by (cases kv)
  from random_set_progress [OF Cons.prems, of k v] obtain l1 where s: "random_set l k v (Inr l1)" ..
  from random_set_inv [OF Cons.prems s] have "random_inv l1" by simp
  from Cons.IH [OF this] obtain l' where "random_sets l1 kvs (Inr l')" ..
  with s kv show ?case by (blast intro: random_sets.step)
qed

lemma fifo_capacity_bound:
  assumes "0 < n"
  shows "\<exists>l0 l m. NewFIFO n = Inr l0 \<and> fifo_sets l0 kvs = Inr l \<and> len (fifo_cache l) \<le> n
           \<and> fifo_evict l = Inr m \<and> len (fifo_cache m) < n"
proof -
  from fifo_inv_New [OF assms] obtain l0 :: "('a, 'b) FIFO"
    where n: "NewFIFO n = Inr l0" and i0: "fifo_inv l0 []" and s0: "\<not> fifo_isStopped l0"
      and c0: "fifo_capacity l0 = n" by blast
  from fifo_sets_inv [OF i0 s0, of kvs] obtain l xs
    where s: "fifo_sets l0 kvs = Inr l" and i: "fifo_inv l xs" and c: "fifo_capacity l = fifo_capacity l0"
    by blast
  from fifo_evict_inv [OF i] obtain m where "fifo_evict l = Inr m"
    and "len (fifo_cache m) < fifo_capacity l" by blast
  moreover from i have "len (fifo_cache l) \<le> fifo_capacity l" by (simp add: fifo_inv_def)
  ultimately show ?thesis using n s c c0 by auto
qed

lemma lifo_capacity_bound:
  assumes "0 < n"
  shows "\<exists>l0 l m. NewLIFO n = Inr l0 \<and> lifo_sets l0 kvs = Inr l \<and> len (lifo_cache l) \<le> n
           \<and> lifo_evict l = Inr m \<and> len (lifo_cache m) < n"
proof -
  from lifo_inv_New [OF assms] obtain l0 :: "('a, 'b) LIFO"
    where n: "NewLIFO n = Inr l0" and i0: "lifo_inv l0 []" and s0: "\<not> lifo_isStopped l0"
      and c0: "lifo_capacity l0 = n" by blast
  from lifo_sets_inv [OF i0 s0, of kvs] obtain l xs
    where s: "lifo_sets l0 kvs = Inr l" and i: "lifo_inv l xs" and c: "lifo_capacity l = lifo_capacity l0"
    by blast
  from lifo_evict_inv [OF i] obtain m where "lifo_evict l = Inr m"
    and "len (lifo_cache m) < lifo_capacity l" by blast
  moreover from i have "len (lifo_cache l) \<le> lifo_capacity l" by (simp add: lifo_inv_def)
  ultimately show ?thesis using n s c c0 by auto
qed

lemma lru_capacity_bound:
  assumes "0 < n"
  shows "\<exists>l0 l m. NewLRU n = Inr l0 \<and> lru_sets l0 kvs = Inr l \<and> len (lru_cache l) \<le> n
           \<and> lru_evict l = Inr m \<and> len (lru_cache m) < n"
proof -
  from lru_inv_New [OF assms] obtain l0 :: "('a, 'b) LRU"
    where n: "NewLRU n = Inr l0" and i0: "lru_inv l0 []" and s0: "\<not> lru_isStopped l0"
      and c0: "lru_capacity l0 = n" by blast
  from lru_sets_inv [OF i0 s0, of kvs] obtain l xs
    where s: "lru_sets l0 kvs = Inr l" and i: "lru_inv l xs" and c: "lru_capacity l = lru_capacity l0"
    by blast
  from lru_evict_inv [OF i] obtain m where "lru_evict l = Inr m"
    and "len (lru_cache m) < lru_capacity l" by blast
  moreover from i have "len (lru_cache l) \<le> lru_capacity l" by (simp add: lru_inv_def)
  ultimately show ?thesis using n s c c0 by auto
qed

lemma random_capacity_bound:
  assumes "0 < n"
  shows "\<exists>l0. NewRandom n = Inr l0 \<and> (\<exists>l. random_sets l0 kvs (Inr l))
           \<and> (\<forall>r. random_sets l0 kvs r \<longrightarrow>
                 (\<exists>l. r = Inr l \<and> len (random_cache l) \<le> n
                    \<and> (\<forall>k. len (fmdrop k (random_cache l)) \<le> n)))"
proof -
  from random_inv_New [OF assms] obtain l0 :: "('a, 'b) Random"
    where n: "NewRandom n = Inr l0" and i0: "random_inv l0" and c0: "random_capacity l0 = n"
    by blast
  have "\<exists>l. r = Inr l \<and> len (random_cache l) \<le> n \<and> (\<forall>k. len (fmdrop k (random_cache l)) \<le> n)"
    if "random_sets l0 kvs r" for r
  proof -
    from random_sets_inv [OF that i0] obtain l where r: "r = Inr l" and i: "random_inv l"
      and c: "random_capacity l = random_capacity l0" by blast
    from i c c0 have b: "len (random_cache l) \<le> n" by (simp add: random_inv_def)
    then have "len (fmdrop k (random_cache l)) \<le> n" for k by simp
    with r b show ?thesis by blast
  qed
  with n random_sets_progress [OF i0, of kvs] show ?thesis by blast
qed

text \<open>
  The engines for any comparable key type. A run of \<open>Set\<close> calls whose keys are all equal
  to themselves keeps every key in the cells equal to itself and enters nothing in the
  second part of the map; such a run is a run of the engines above.
\<close>

lemma keys_self_nth:
  "keys_self self key cells \<Longrightarrow> i < length cells \<Longrightarrow> key (cells ! i) = Some k \<Longrightarrow> self k"
  unfolding keys_self_def using nth_mem by blast

lemma keys_self_append:
  "keys_self self key (cells @ [c]) \<longleftrightarrow>
     keys_self self key cells \<and> (\<forall>k. key c = Some k \<longrightarrow> self k)"
  unfolding keys_self_def by auto

lemma keys_self_update:
  assumes "keys_self self key cells" and "\<And>k. key c = Some k \<Longrightarrow> self k"
  shows "keys_self self key (cells[i := c])"
  unfolding keys_self_def
proof (intro ballI allI impI)
  fix d k assume "d \<in> set (cells[i := c])" and k: "key d = Some k"
  then have "d = c \<or> d \<in> set cells" using set_update_subset_insert [of cells i c] by auto
  with assms k show "self k" unfolding keys_self_def by blast
qed

lemma keys_self_update_same:
  assumes "keys_self self key cells" and "key c = key (cells ! i)"
  shows "keys_self self key (cells[i := c])"
proof (cases "i < length cells")
  case True
  show ?thesis
  proof (rule keys_self_update [OF assms(1)])
    fix k assume "key c = Some k"
    with assms(2) have "key (cells ! i) = Some k" by simp
    from keys_self_nth [OF assms(1) True this] show "self k" .
  qed
next
  case False
  then have "cells[i := c] = cells" by (simp add: list_update_beyond)
  with assms(1) show ?thesis by simp
qed

lemma fifo_evict_any_sim:
  assumes "keys_self self fifo_key (fifo_cells l)"
  shows "fifo_evict_any self (l, []) = (case fifo_evict l of Inl p \<Rightarrow> Inl p | Inr l' \<Rightarrow> Inr (l', []))"
proof (cases "fifo_capacity l \<le> len (fifo_cache l)")
  case False
  then show ?thesis
    by (simp add: fifo_evict_any_def fifo_evict_def fifo_map_def go_len_def)
next
  case True
  show ?thesis
  proof (cases "fifo_head l")
    case None
    with True show ?thesis
      by (simp add: fifo_evict_any_def fifo_evict_def fifo_map_def go_len_def)
  next
    case (Some h)
    show ?thesis
    proof (cases "h < length (fifo_cells l)")
      case False
      with True Some show ?thesis
        by (simp add: fifo_evict_any_def fifo_evict_def fifo_map_def go_len_def)
    next
      case hv: True
      show ?thesis
      proof (cases "fifo_key (fifo_cells l ! h)")
        case None
        with True Some hv show ?thesis
          by (simp add: fifo_evict_any_def fifo_evict_def fifo_map_def go_len_def)
      next
        case (Some hk)
        from keys_self_nth [OF assms hv Some] have "self hk" .
        with True \<open>fifo_head l = Some h\<close> hv Some show ?thesis
          by (simp add: fifo_evict_any_def fifo_evict_def fifo_map_def go_len_def go_delete_def
                Let_def)
      qed
    qed
  qed
qed

lemma fifo_store_any_sim:
  assumes "self key"
  shows "fifo_store_any self (l, []) key val = (fifo_store l key val, [])"
  using assms
  by (simp add: fifo_store_any_def fifo_store_def fifo_map_def go_lookup_def go_assign_def Let_def
           split: option.splits)

lemma fifo_evict_keys:
  assumes "keys_self self fifo_key (fifo_cells l)" and "fifo_evict l = Inr l'"
  shows "keys_self self fifo_key (fifo_cells l')"
proof (cases "fifo_capacity l \<le> len (fifo_cache l)")
  case False
  with assms show ?thesis by (simp add: fifo_evict_def)
next
  case True
  with assms(2) obtain h where "fifo_cells l' = (fifo_cells l)[h := fifo_zero]"
    by (auto simp: fifo_evict_def Let_def split: option.splits if_splits)
  moreover have "keys_self self fifo_key ((fifo_cells l)[h := fifo_zero])"
    by (rule keys_self_update [OF assms(1)]) (simp add: fifo_zero_def)
  ultimately show ?thesis by simp
qed

lemma fifo_store_keys:
  assumes "keys_self self fifo_key (fifo_cells l)" and "self key"
  shows "keys_self self fifo_key (fifo_cells (fifo_store l key val))"
proof (cases "fmlookup (fifo_cache l) key")
  case (Some node)
  then show ?thesis
    by (simp add: fifo_store_def keys_self_update_same [OF assms(1)])
next
  case None
  define cells1 where "cells1 = fifo_cells l @ [\<lparr>fifo_next = None, fifo_key = Some key, fifo_value = 0\<rparr>]"
  define cells2 where "cells2 = (case fifo_tail l of None \<Rightarrow> cells1
                         | Some t \<Rightarrow> cells1[t := (cells1 ! t)\<lparr>fifo_next := Some (length (fifo_cells l))\<rparr>])"
  have k1: "keys_self self fifo_key cells1"
    using assms by (simp add: cells1_def keys_self_append)
  have k2: "keys_self self fifo_key cells2"
    unfolding cells2_def using k1 by (auto split: option.splits intro: keys_self_update_same)
  have "keys_self self fifo_key
          (cells2[length (fifo_cells l) := (cells2 ! length (fifo_cells l))\<lparr>fifo_value := val\<rparr>])"
    by (rule keys_self_update_same [OF k2]) simp
  moreover have "fifo_cells (fifo_store l key val)
      = cells2[length (fifo_cells l) := (cells2 ! length (fifo_cells l))\<lparr>fifo_value := val\<rparr>]"
    unfolding fifo_store_def cells2_def cells1_def Let_def using None by simp
  ultimately show ?thesis by simp
qed

lemma fifo_set_any_sim:
  assumes "keys_self self fifo_key (fifo_cells l)" and "self key"
  shows "fifo_set_any self (l, []) key val
           = (case fifo_set l key val of Inl p \<Rightarrow> Inl p | Inr l' \<Rightarrow> Inr (l', []))"
    and "fifo_set l key val = Inr l' \<Longrightarrow> keys_self self fifo_key (fifo_cells l')"
proof -
  show "fifo_set_any self (l, []) key val
           = (case fifo_set l key val of Inl p \<Rightarrow> Inl p | Inr l' \<Rightarrow> Inr (l', []))"
    using assms(2)
    by (simp add: fifo_set_any_def fifo_set_def fifo_evict_any_sim [OF assms(1)]
          fifo_store_any_sim split: sum.splits)
  assume "fifo_set l key val = Inr l'"
  then obtain l1 where e: "fifo_evict l = Inr l1" and s: "l' = fifo_store l1 key val"
    by (auto simp: fifo_set_def split: if_splits sum.splits)
  from fifo_evict_keys [OF assms(1) e] have "keys_self self fifo_key (fifo_cells l1)" .
  from fifo_store_keys [OF this assms(2)] show "keys_self self fifo_key (fifo_cells l')"
    by (simp add: s)
qed

lemma fifo_sets_any_sim:
  assumes "keys_self self fifo_key (fifo_cells l)" and "\<forall>k\<in>fst ` set kvs. self k"
  shows "fifo_sets_any self (l, []) kvs
           = (case fifo_sets l kvs of Inl p \<Rightarrow> Inl p | Inr l' \<Rightarrow> Inr (l', []))
         \<and> (\<forall>l'. fifo_sets l kvs = Inr l' \<longrightarrow> keys_self self fifo_key (fifo_cells l'))"
  using assms
proof (induction kvs arbitrary: l)
  case Nil
  then show ?case by simp
next
  case (Cons kv kvs)
  obtain k v where kv: "kv = (k, v)" by (cases kv)
  from Cons.prems kv have sk: "self k" and rest: "\<forall>k\<in>fst ` set kvs. self k" by auto
  note sim = fifo_set_any_sim(1) [OF Cons.prems(1) sk, of v]
  show ?case
  proof (cases "fifo_set l k v")
    case (Inl p)
    then show ?thesis by (simp add: kv sim)
  next
    case (Inr l1)
    from fifo_set_any_sim(2) [OF Cons.prems(1) sk Inr]
    have "keys_self self fifo_key (fifo_cells l1)" .
    from Cons.IH [OF this rest] Inr show ?thesis
      by (simp add: kv sim)
  qed
qed

lemma fifo_capacity_bound_any:
  assumes "0 < n" and "\<forall>k\<in>fst ` set kvs. self k"
  shows "\<exists>s0 s m. NewFIFO_any n = Inr s0 \<and> fifo_sets_any self s0 kvs = Inr s
           \<and> go_len (fifo_map s) \<le> n
           \<and> fifo_evict_any self s = Inr m \<and> go_len (fifo_map m) < n"
proof -
  from fifo_capacity_bound [OF assms(1), of kvs] obtain l0 l m :: "('a, 'b) FIFO"
    where n: "NewFIFO n = Inr l0" and s: "fifo_sets l0 kvs = Inr l" and b: "len (fifo_cache l) \<le> n"
      and e: "fifo_evict l = Inr m" and b': "len (fifo_cache m) < n"
    by blast
  from n have k0: "keys_self self fifo_key (fifo_cells l0)"
    by (auto simp: NewFIFO_def keys_self_def split: if_splits)
  from fifo_sets_any_sim [OF k0 assms(2)] s
  have s': "fifo_sets_any self (l0, []) kvs = Inr (l, [])"
    and k: "keys_self self fifo_key (fifo_cells l)" by simp_all
  from fifo_evict_any_sim [OF k] e have e': "fifo_evict_any self (l, []) = Inr (m, [])" by simp
  from n have "NewFIFO_any n = Inr (l0, [])" by (simp add: NewFIFO_any_def)
  moreover from b have "go_len (fifo_map (l, [])) \<le> n" by (simp add: go_len_def fifo_map_def)
  moreover from b' have "go_len (fifo_map (m, [])) < n" by (simp add: go_len_def fifo_map_def)
  ultimately show ?thesis using s' e' by blast
qed

lemma lifo_evict_any_sim:
  assumes "keys_self self lifo_key (lifo_cells l)"
  shows "lifo_evict_any self (l, []) = (case lifo_evict l of Inl p \<Rightarrow> Inl p | Inr l' \<Rightarrow> Inr (l', []))"
proof (cases "lifo_capacity l \<le> len (lifo_cache l)")
  case False
  then show ?thesis
    by (simp add: lifo_evict_any_def lifo_evict_def lifo_map_def go_len_def)
next
  case True
  show ?thesis
  proof (cases "lifo_head l")
    case None
    with True show ?thesis
      by (simp add: lifo_evict_any_def lifo_evict_def lifo_map_def go_len_def)
  next
    case (Some h)
    show ?thesis
    proof (cases "h < length (lifo_cells l)")
      case False
      with True Some show ?thesis
        by (simp add: lifo_evict_any_def lifo_evict_def lifo_map_def go_len_def)
    next
      case hv: True
      show ?thesis
      proof (cases "lifo_key (lifo_cells l ! h)")
        case None
        with True Some hv show ?thesis
          by (simp add: lifo_evict_any_def lifo_evict_def lifo_map_def go_len_def)
      next
        case (Some hk)
        from keys_self_nth [OF assms hv Some] have "self hk" .
        with True \<open>lifo_head l = Some h\<close> hv Some show ?thesis
          by (simp add: lifo_evict_any_def lifo_evict_def lifo_map_def go_len_def go_delete_def
                Let_def)
      qed
    qed
  qed
qed

lemma lifo_store_any_sim:
  assumes "self key"
  shows "lifo_store_any self (l, []) key val = (lifo_store l key val, [])"
  using assms
  by (simp add: lifo_store_any_def lifo_store_def lifo_map_def go_lookup_def go_assign_def Let_def
           split: option.splits)

lemma lifo_evict_keys:
  assumes "keys_self self lifo_key (lifo_cells l)" and "lifo_evict l = Inr l'"
  shows "keys_self self lifo_key (lifo_cells l')"
proof (cases "lifo_capacity l \<le> len (lifo_cache l)")
  case False
  with assms show ?thesis by (simp add: lifo_evict_def)
next
  case True
  with assms(2) obtain h where "lifo_cells l' = (lifo_cells l)[h := lifo_zero]"
    by (auto simp: lifo_evict_def Let_def split: option.splits if_splits)
  moreover have "keys_self self lifo_key ((lifo_cells l)[h := lifo_zero])"
    by (rule keys_self_update [OF assms(1)]) (simp add: lifo_zero_def)
  ultimately show ?thesis by simp
qed

lemma lifo_store_keys:
  assumes "keys_self self lifo_key (lifo_cells l)" and "self key"
  shows "keys_self self lifo_key (lifo_cells (lifo_store l key val))"
proof (cases "fmlookup (lifo_cache l) key")
  case (Some node)
  then show ?thesis
    by (simp add: lifo_store_def keys_self_update_same [OF assms(1)])
next
  case None
  define cells1 where "cells1 = lifo_cells l @ [\<lparr>lifo_next = None, lifo_key = Some key, lifo_value = 0\<rparr>]"
  define cells2 where "cells2 = cells1[length (lifo_cells l) :=
                         (cells1 ! length (lifo_cells l))\<lparr>lifo_next := lifo_head l\<rparr>]"
  have k1: "keys_self self lifo_key cells1"
    using assms by (simp add: cells1_def keys_self_append)
  have k2: "keys_self self lifo_key cells2"
    unfolding cells2_def by (rule keys_self_update_same [OF k1]) simp
  have "keys_self self lifo_key
          (cells2[length (lifo_cells l) := (cells2 ! length (lifo_cells l))\<lparr>lifo_value := val\<rparr>])"
    by (rule keys_self_update_same [OF k2]) simp
  moreover have "lifo_cells (lifo_store l key val)
      = cells2[length (lifo_cells l) := (cells2 ! length (lifo_cells l))\<lparr>lifo_value := val\<rparr>]"
    unfolding lifo_store_def cells2_def cells1_def Let_def using None by simp
  ultimately show ?thesis by simp
qed

lemma lifo_set_any_sim:
  assumes "keys_self self lifo_key (lifo_cells l)" and "self key"
  shows "lifo_set_any self (l, []) key val
           = (case lifo_set l key val of Inl p \<Rightarrow> Inl p | Inr l' \<Rightarrow> Inr (l', []))"
    and "lifo_set l key val = Inr l' \<Longrightarrow> keys_self self lifo_key (lifo_cells l')"
proof -
  show "lifo_set_any self (l, []) key val
           = (case lifo_set l key val of Inl p \<Rightarrow> Inl p | Inr l' \<Rightarrow> Inr (l', []))"
    using assms(2)
    by (simp add: lifo_set_any_def lifo_set_def lifo_evict_any_sim [OF assms(1)]
          lifo_store_any_sim split: sum.splits)
  assume "lifo_set l key val = Inr l'"
  then obtain l1 where e: "lifo_evict l = Inr l1" and s: "l' = lifo_store l1 key val"
    by (auto simp: lifo_set_def split: if_splits sum.splits)
  from lifo_evict_keys [OF assms(1) e] have "keys_self self lifo_key (lifo_cells l1)" .
  from lifo_store_keys [OF this assms(2)] show "keys_self self lifo_key (lifo_cells l')"
    by (simp add: s)
qed

lemma lifo_sets_any_sim:
  assumes "keys_self self lifo_key (lifo_cells l)" and "\<forall>k\<in>fst ` set kvs. self k"
  shows "lifo_sets_any self (l, []) kvs
           = (case lifo_sets l kvs of Inl p \<Rightarrow> Inl p | Inr l' \<Rightarrow> Inr (l', []))
         \<and> (\<forall>l'. lifo_sets l kvs = Inr l' \<longrightarrow> keys_self self lifo_key (lifo_cells l'))"
  using assms
proof (induction kvs arbitrary: l)
  case Nil
  then show ?case by simp
next
  case (Cons kv kvs)
  obtain k v where kv: "kv = (k, v)" by (cases kv)
  from Cons.prems kv have sk: "self k" and rest: "\<forall>k\<in>fst ` set kvs. self k" by auto
  note sim = lifo_set_any_sim(1) [OF Cons.prems(1) sk, of v]
  show ?case
  proof (cases "lifo_set l k v")
    case (Inl p)
    then show ?thesis by (simp add: kv sim)
  next
    case (Inr l1)
    from lifo_set_any_sim(2) [OF Cons.prems(1) sk Inr]
    have "keys_self self lifo_key (lifo_cells l1)" .
    from Cons.IH [OF this rest] Inr show ?thesis
      by (simp add: kv sim)
  qed
qed

lemma lifo_capacity_bound_any:
  assumes "0 < n" and "\<forall>k\<in>fst ` set kvs. self k"
  shows "\<exists>s0 s m. NewLIFO_any n = Inr s0 \<and> lifo_sets_any self s0 kvs = Inr s
           \<and> go_len (lifo_map s) \<le> n
           \<and> lifo_evict_any self s = Inr m \<and> go_len (lifo_map m) < n"
proof -
  from lifo_capacity_bound [OF assms(1), of kvs] obtain l0 l m :: "('a, 'b) LIFO"
    where n: "NewLIFO n = Inr l0" and s: "lifo_sets l0 kvs = Inr l" and b: "len (lifo_cache l) \<le> n"
      and e: "lifo_evict l = Inr m" and b': "len (lifo_cache m) < n"
    by blast
  from n have k0: "keys_self self lifo_key (lifo_cells l0)"
    by (auto simp: NewLIFO_def keys_self_def split: if_splits)
  from lifo_sets_any_sim [OF k0 assms(2)] s
  have s': "lifo_sets_any self (l0, []) kvs = Inr (l, [])"
    and k: "keys_self self lifo_key (lifo_cells l)" by simp_all
  from lifo_evict_any_sim [OF k] e have e': "lifo_evict_any self (l, []) = Inr (m, [])" by simp
  from n have "NewLIFO_any n = Inr (l0, [])" by (simp add: NewLIFO_any_def)
  moreover from b have "go_len (lifo_map (l, [])) \<le> n" by (simp add: go_len_def lifo_map_def)
  moreover from b' have "go_len (lifo_map (m, [])) < n" by (simp add: go_len_def lifo_map_def)
  ultimately show ?thesis using s' e' by blast
qed

lemma lru_moveToTail_keys:
  assumes "keys_self self lru_key (lru_cells l)"
  shows "keys_self self lru_key (lru_cells (lru_moveToTail l node))"
proof (cases "lru_tail l = Some node")
  case True
  with assms show ?thesis by (simp add: lru_moveToTail_noop)
next
  case False
  define c where "c = lru_cells l"
  define c1 where "c1 = (case lru_prev (c ! node) of None \<Rightarrow> c
                          | Some p \<Rightarrow> c[p := (c ! p)\<lparr>lru_next := lru_next (c ! node)\<rparr>])"
  define c2 where "c2 = (case lru_next (c1 ! node) of None \<Rightarrow> c1
                          | Some n \<Rightarrow> c1[n := (c1 ! n)\<lparr>lru_prev := lru_prev (c1 ! node)\<rparr>])"
  define c3 where "c3 = (case lru_tail l of None \<Rightarrow> c2
                          | Some t \<Rightarrow> c2[t := (c2 ! t)\<lparr>lru_next := Some node\<rparr>])"
  define c4 where "c4 = c3[node := (c3 ! node)\<lparr>lru_next := None, lru_prev := lru_tail l\<rparr>]"
  have c': "lru_cells (lru_moveToTail l node) = c4"
    unfolding c4_def c3_def c2_def c1_def c_def lru_moveToTail_def Let_def
    using False by auto
  have k0: "keys_self self lru_key c" using assms by (simp add: c_def)
  have k1: "keys_self self lru_key c1"
    unfolding c1_def using k0 by (auto split: option.splits intro: keys_self_update_same)
  have k2: "keys_self self lru_key c2"
    unfolding c2_def using k1 by (auto split: option.splits intro: keys_self_update_same)
  have k3: "keys_self self lru_key c3"
    unfolding c3_def using k2 by (auto split: option.splits intro: keys_self_update_same)
  have "keys_self self lru_key c4"
    unfolding c4_def by (rule keys_self_update_same [OF k3]) simp
  then show ?thesis by (simp add: c')
qed

lemma lru_evict_any_sim:
  assumes "keys_self self lru_key (lru_cells l)"
  shows "lru_evict_any self (l, []) = (case lru_evict l of Inl p \<Rightarrow> Inl p | Inr l' \<Rightarrow> Inr (l', []))"
proof (cases "lru_capacity l \<le> len (lru_cache l)")
  case False
  then show ?thesis
    by (simp add: lru_evict_any_def lru_evict_def lru_map_def go_len_def)
next
  case True
  show ?thesis
  proof (cases "lru_head l")
    case None
    with True show ?thesis
      by (simp add: lru_evict_any_def lru_evict_def lru_map_def go_len_def)
  next
    case (Some h)
    show ?thesis
    proof (cases "h < length (lru_cells l)")
      case False
      with True Some show ?thesis
        by (simp add: lru_evict_any_def lru_evict_def lru_map_def go_len_def)
    next
      case hv: True
      show ?thesis
      proof (cases "lru_key (lru_cells l ! h)")
        case None
        with True Some hv show ?thesis
          by (simp add: lru_evict_any_def lru_evict_def lru_map_def go_len_def)
      next
        case (Some hk)
        from keys_self_nth [OF assms hv Some] have "self hk" .
        with True \<open>lru_head l = Some h\<close> hv Some show ?thesis
          by (simp add: lru_evict_any_def lru_evict_def lru_map_def go_len_def go_delete_def
                Let_def)
      qed
    qed
  qed
qed

lemma lru_store_any_sim:
  assumes "self key"
  shows "lru_store_any self (l, []) key val
           = (case lru_store l key val of Inl p \<Rightarrow> Inl p | Inr l' \<Rightarrow> Inr (l', []))"
  using assms
  by (simp add: lru_store_any_def lru_store_def lru_map_def go_lookup_def go_assign_def Let_def
           split: option.splits)

lemma lru_evict_keys:
  assumes "keys_self self lru_key (lru_cells l)" and "lru_evict l = Inr l'"
  shows "keys_self self lru_key (lru_cells l')"
proof (cases "lru_capacity l \<le> len (lru_cache l)")
  case False
  with assms show ?thesis by (simp add: lru_evict_def)
next
  case True
  with assms(2) obtain h hk where hd: "lru_head l = Some h" and hv: "h < length (lru_cells l)"
    and hk: "lru_key (lru_cells l ! h) = Some hk"
    by (auto simp: lru_evict_def Let_def split: option.splits if_splits)
  with True assms(2) have c: "lru_cells l' =
      (case lru_next (lru_cells l ! h) of
         None \<Rightarrow> (lru_cells l)[h := lru_zero]
       | Some n \<Rightarrow> ((lru_cells l)[h := lru_zero])
                     [n := (((lru_cells l)[h := lru_zero]) ! n)\<lparr>lru_prev := None\<rparr>])"
    by (auto simp: lru_evict_def Let_def split: option.splits)
  have k1: "keys_self self lru_key ((lru_cells l)[h := lru_zero])"
    by (rule keys_self_update [OF assms(1)]) (simp add: lru_zero_def)
  show ?thesis
    unfolding c using k1 by (auto split: option.splits intro: keys_self_update_same)
qed

lemma lru_store_keys:
  assumes "keys_self self lru_key (lru_cells l)" and "self key"
    and "lru_store l key val = Inr l'"
  shows "keys_self self lru_key (lru_cells l')"
proof (cases "fmlookup (lru_cache l) key")
  case (Some node)
  with assms(3) have "l' = lru_moveToTail
      (l\<lparr>lru_cells := (lru_cells l)[node := (lru_cells l ! node)\<lparr>lru_value := val\<rparr>]\<rparr>) node"
    by (auto simp: lru_store_def split: if_splits)
  moreover have "keys_self self lru_key ((lru_cells l)[node := (lru_cells l ! node)\<lparr>lru_value := val\<rparr>])"
    by (rule keys_self_update_same [OF assms(1)]) simp
  ultimately show ?thesis by (simp add: lru_moveToTail_keys)
next
  case None
  define cells1 where "cells1 = lru_cells l @ [\<lparr>lru_prev = None, lru_next = None, lru_key = Some key, lru_value = 0\<rparr>]"
  define cells2 where "cells2 = cells1[length (lru_cells l) := (cells1 ! length (lru_cells l))\<lparr>lru_value := val\<rparr>]"
  have k1: "keys_self self lru_key cells1"
    using assms by (simp add: cells1_def keys_self_append)
  have k2: "keys_self self lru_key cells2"
    unfolding cells2_def by (rule keys_self_update_same [OF k1]) simp
  have "l' = lru_moveToTail (l\<lparr>lru_cache := fmupd key (length (lru_cells l)) (lru_cache l),
                               lru_cells := cells2\<rparr>) (length (lru_cells l))"
    using assms(3) None unfolding lru_store_def cells2_def cells1_def Let_def by simp
  with k2 show ?thesis by (simp add: lru_moveToTail_keys)
qed

lemma lru_set_any_sim:
  assumes "keys_self self lru_key (lru_cells l)" and "self key"
  shows "lru_set_any self (l, []) key val
           = (case lru_set l key val of Inl p \<Rightarrow> Inl p | Inr l' \<Rightarrow> Inr (l', []))"
    and "lru_set l key val = Inr l' \<Longrightarrow> keys_self self lru_key (lru_cells l')"
proof -
  show "lru_set_any self (l, []) key val
           = (case lru_set l key val of Inl p \<Rightarrow> Inl p | Inr l' \<Rightarrow> Inr (l', []))"
    using assms(2)
    by (simp add: lru_set_any_def lru_set_def lru_evict_any_sim [OF assms(1)]
          lru_store_any_sim split: sum.splits)
  assume "lru_set l key val = Inr l'"
  then obtain l1 where e: "lru_evict l = Inr l1" and s: "lru_store l1 key val = Inr l'"
    by (auto simp: lru_set_def split: if_splits sum.splits)
  from lru_evict_keys [OF assms(1) e] have "keys_self self lru_key (lru_cells l1)" .
  from lru_store_keys [OF this assms(2) s] show "keys_self self lru_key (lru_cells l')" .
qed

lemma lru_sets_any_sim:
  assumes "keys_self self lru_key (lru_cells l)" and "\<forall>k\<in>fst ` set kvs. self k"
  shows "lru_sets_any self (l, []) kvs
           = (case lru_sets l kvs of Inl p \<Rightarrow> Inl p | Inr l' \<Rightarrow> Inr (l', []))
         \<and> (\<forall>l'. lru_sets l kvs = Inr l' \<longrightarrow> keys_self self lru_key (lru_cells l'))"
  using assms
proof (induction kvs arbitrary: l)
  case Nil
  then show ?case by simp
next
  case (Cons kv kvs)
  obtain k v where kv: "kv = (k, v)" by (cases kv)
  from Cons.prems kv have sk: "self k" and rest: "\<forall>k\<in>fst ` set kvs. self k" by auto
  note sim = lru_set_any_sim(1) [OF Cons.prems(1) sk, of v]
  show ?case
  proof (cases "lru_set l k v")
    case (Inl p)
    then show ?thesis by (simp add: kv sim)
  next
    case (Inr l1)
    from lru_set_any_sim(2) [OF Cons.prems(1) sk Inr]
    have "keys_self self lru_key (lru_cells l1)" .
    from Cons.IH [OF this rest] Inr show ?thesis
      by (simp add: kv sim)
  qed
qed

lemma lru_capacity_bound_any:
  assumes "0 < n" and "\<forall>k\<in>fst ` set kvs. self k"
  shows "\<exists>s0 s m. NewLRU_any n = Inr s0 \<and> lru_sets_any self s0 kvs = Inr s
           \<and> go_len (lru_map s) \<le> n
           \<and> lru_evict_any self s = Inr m \<and> go_len (lru_map m) < n"
proof -
  from lru_capacity_bound [OF assms(1), of kvs] obtain l0 l m :: "('a, 'b) LRU"
    where n: "NewLRU n = Inr l0" and s: "lru_sets l0 kvs = Inr l" and b: "len (lru_cache l) \<le> n"
      and e: "lru_evict l = Inr m" and b': "len (lru_cache m) < n"
    by blast
  from n have k0: "keys_self self lru_key (lru_cells l0)"
    by (auto simp: NewLRU_def keys_self_def split: if_splits)
  from lru_sets_any_sim [OF k0 assms(2)] s
  have s': "lru_sets_any self (l0, []) kvs = Inr (l, [])"
    and k: "keys_self self lru_key (lru_cells l)" by simp_all
  from lru_evict_any_sim [OF k] e have e': "lru_evict_any self (l, []) = Inr (m, [])" by simp
  from n have "NewLRU_any n = Inr (l0, [])" by (simp add: NewLRU_any_def)
  moreover from b have "go_len (lru_map (l, [])) \<le> n" by (simp add: go_len_def lru_map_def)
  moreover from b' have "go_len (lru_map (m, [])) < n" by (simp add: go_len_def lru_map_def)
  ultimately show ?thesis using s' e' by blast
qed

lemma random_set_any_inv:
  assumes inv: "random_inv (fst s)" and emp: "snd s = []" and sk: "self key"
    and st: "random_set_any self s key val r"
  shows "\<exists>s'. r = Inr s' \<and> random_inv (fst s') \<and> snd s' = []
           \<and> random_capacity (fst s') = random_capacity (fst s)"
  using st
proof cases
  case stopped
  with inv show ?thesis by (simp add: random_inv_def)
next
  case room
  with inv emp sk show ?thesis
    by (auto simp: random_inv_def random_isStopped_def random_assign_def random_map_def
          go_assign_def go_len_def Let_def)
next
  case (evict k)
  with inv emp sk show ?thesis
    by (auto simp: random_inv_def random_isStopped_def random_assign_def random_map_def
          go_assign_def go_len_def Let_def)
next
  case evict_unequal
  with emp show ?thesis by simp
next
  case nothing
  then have "random_capacity (fst s) \<le> len (random_cache (fst s))"
    and "len (random_cache (fst s)) = 0"
    using emp by (simp_all add: len_def fcard_fempty go_len_def random_map_def)
  with inv show ?thesis by (simp add: random_inv_def)
qed

lemma random_set_any_progress:
  assumes inv: "random_inv (fst s)" and emp: "snd s = []"
  shows "\<exists>s'. random_set_any self s key val (Inr s')"
proof (cases "go_len (random_map s) < random_capacity (fst s)")
  case True
  from inv have ns: "\<not> random_isStopped (fst s)" by (simp add: random_inv_def)
  from random_set_any.room [OF ns True] show ?thesis by blast
next
  case False
  with inv emp have "0 < len (random_cache (fst s))"
    by (simp add: random_inv_def go_len_def random_map_def)
  then obtain k a where "fmlookup (random_cache (fst s)) k = Some a" using len_pos_lookup by blast
  then have dom: "k |\<in>| fmdom (random_cache (fst s))" by (rule fmdomI)
  from inv have ns: "\<not> random_isStopped (fst s)" by (simp add: random_inv_def)
  from False have ge: "random_capacity (fst s) \<le> go_len (random_map s)" by simp
  from random_set_any.evict [OF ns ge dom] show ?thesis by blast
qed

lemma random_sets_any_inv:
  assumes "random_sets_any self s kvs r" and "random_inv (fst s)" and "snd s = []"
    and "\<forall>k\<in>fst ` set kvs. self k"
  shows "\<exists>s'. r = Inr s' \<and> random_inv (fst s') \<and> snd s' = []
           \<and> random_capacity (fst s') = random_capacity (fst s)"
  using assms
proof (induction rule: random_sets_any.induct)
  case (over self s)
  then show ?case by simp
next
  case (halt self s k v p kvs)
  then have "self k" by simp
  from random_set_any_inv [OF halt(2) halt(3) this halt(1)] show ?case by simp
next
  case (step self s k v s1 kvs r)
  then have sk: "self k" and rest: "\<forall>k\<in>fst ` set kvs. self k" by simp_all
  from random_set_any_inv [OF step(4) step(5) sk step(1)]
  have "random_inv (fst s1)" and "snd s1 = []"
    and "random_capacity (fst s1) = random_capacity (fst s)" by simp_all
  with step(3) rest show ?case by simp
qed

lemma random_sets_any_progress:
  assumes "random_inv (fst s)" and "snd s = []" and "\<forall>k\<in>fst ` set kvs. self k"
  shows "\<exists>s'. random_sets_any self s kvs (Inr s')"
  using assms
proof (induction kvs arbitrary: s)
  case Nil
  show ?case by (blast intro: random_sets_any.over)
next
  case (Cons kv kvs)
  obtain k v where kv: "kv = (k, v)" by (cases kv)
  from Cons.prems kv have sk: "self k" and rest: "\<forall>k\<in>fst ` set kvs. self k" by auto
  from random_set_any_progress [OF Cons.prems(1) Cons.prems(2), of self k v]
  obtain s1 where s: "random_set_any self s k v (Inr s1)" ..
  from random_set_any_inv [OF Cons.prems(1) Cons.prems(2) sk s]
  have "random_inv (fst s1)" and "snd s1 = []" by simp_all
  from Cons.IH [OF this rest] obtain s' where "random_sets_any self s1 kvs (Inr s')" ..
  with s kv show ?case by (blast intro: random_sets_any.step)
qed

lemma go_delete_len: "go_len (go_delete self m k) \<le> go_len m"
  by (simp add: go_delete_def go_len_def)

lemma random_capacity_bound_any:
  assumes "0 < n" and "\<forall>k\<in>fst ` set kvs. self k"
  shows "\<exists>s0. NewRandom_any n = Inr s0 \<and> (\<exists>s. random_sets_any self s0 kvs (Inr s))
           \<and> (\<forall>r. random_sets_any self s0 kvs r \<longrightarrow>
                 (\<exists>s. r = Inr s \<and> go_len (random_map s) \<le> n
                    \<and> (\<forall>k. go_len (go_delete self (random_map s) k) \<le> n)))"
proof -
  from random_inv_New [OF assms(1)] obtain l0 :: "('a, 'b) Random"
    where n: "NewRandom n = Inr l0" and i0: "random_inv l0" and c0: "random_capacity l0 = n"
    by blast
  define s0 where "s0 = (l0, [] :: 'b list)"
  have n': "NewRandom_any n = Inr s0" using n by (simp add: NewRandom_any_def s0_def)
  have i: "random_inv (fst s0)" and e: "snd s0 = []" using i0 by (simp_all add: s0_def)
  have "\<exists>s. r = Inr s \<and> go_len (random_map s) \<le> n
           \<and> (\<forall>k. go_len (go_delete self (random_map s) k) \<le> n)"
    if "random_sets_any self s0 kvs r" for r
  proof -
    from random_sets_any_inv [OF that i e assms(2)] obtain s where r: "r = Inr s"
      and iv: "random_inv (fst s)" and es: "snd s = []"
      and c: "random_capacity (fst s) = random_capacity (fst s0)" by blast
    from iv es c c0 have b: "go_len (random_map s) \<le> n"
      by (simp add: random_inv_def go_len_def random_map_def s0_def)
    have "go_len (go_delete self (random_map s) k) \<le> n" for k
      using go_delete_len [of self "random_map s" k] b by simp
    with r b show ?thesis by blast
  qed
  with n' random_sets_any_progress [OF i e assms(2)] show ?thesis by blast
qed

text \<open>With the key \<open>NaN\<close> of \<open>float64\<close> the map grows with every call.\<close>

lemma random_nan_run:
  "random_sets_any float64_self random_nan0 [(NaN, 1), (NaN, 2)] (Inr random_nan2)"
proof -
  define l0 :: "(float64, int) Random"
    where "l0 = \<lparr>random_cache = fmempty, random_capacity = 1, random_stopped = 0\<rparr>"
  have s1: "random_set_any float64_self (l0, []) NaN 1 (Inr (l0, [1]))"
    using random_set_any.room [where s = "(l0, [])" and self = float64_self and key = NaN
            and val = "1::int"]
    by (simp add: random_isStopped_def l0_def go_len_def random_map_def random_assign_def
          go_assign_def)
  have s2: "random_set_any float64_self (l0, [1]) NaN 2 (Inr (l0, [1, 2]))"
    using random_set_any.evict_unequal [where s = "(l0, [1])" and self = float64_self
            and key = NaN and val = "2::int"]
    by (simp add: random_isStopped_def l0_def go_len_def random_map_def random_assign_def
          go_assign_def)
  have "random_sets_any float64_self (l0, []) [(NaN, 1), (NaN, 2)] (Inr (l0, [1, 2]))"
    by (intro random_sets_any.step [OF s1] random_sets_any.step [OF s2] random_sets_any.over)
  then show ?thesis by (simp add: random_nan0_def random_nan2_def l0_def)
qed

text \<open>
  C4, as the claim states it, of every cache and every run of \<open>Set\<close> calls. With keys of
  type \<open>float64\<close> and capacity 1, the run \<open>Set(NaN, 1)\<close>, \<open>Set(NaN, 2)\<close> returns in every
  engine, and the map then has two entries: the second call finds the map at capacity and
  runs the eviction block, but \<open>delete\<close> with the key \<open>NaN\<close> deletes nothing, the lookup
  of \<open>NaN\<close> finds nothing, and the call adds a second entry.
\<close>

theorem capacity_exceeded_by_nan_keys:
  "NewFIFO_any 1 = Inr fifo_nan0
   \<and> fifo_sets_any float64_self fifo_nan0 [(NaN, 1), (NaN, 2)] = Inr fifo_nan2
   \<and> fifo_capacity (fst fifo_nan2) = 1 \<and> go_len (fifo_map fifo_nan2) = 2
   \<and> NewLIFO_any 1 = Inr lifo_nan0
   \<and> lifo_sets_any float64_self lifo_nan0 [(NaN, 1), (NaN, 2)] = Inr lifo_nan2
   \<and> lifo_capacity (fst lifo_nan2) = 1 \<and> go_len (lifo_map lifo_nan2) = 2
   \<and> NewLRU_any 1 = Inr lru_nan0
   \<and> lru_sets_any float64_self lru_nan0 [(NaN, 1), (NaN, 2)] = Inr lru_nan2
   \<and> lru_capacity (fst lru_nan2) = 1 \<and> go_len (lru_map lru_nan2) = 2
   \<and> NewRandom_any 1 = Inr random_nan0
   \<and> random_sets_any float64_self random_nan0 [(NaN, 1), (NaN, 2)] (Inr random_nan2)
   \<and> random_capacity (fst random_nan2) = 1 \<and> go_len (random_map random_nan2) = 2"
  apply (intro conjI)
  subgoal by (simp add: NewFIFO_any_def NewFIFO_def fifo_nan0_def)
  subgoal
    by (simp add: fifo_nan0_def fifo_nan2_def fifo_set_any_def fifo_evict_any_def fifo_store_any_def
          fifo_isStopped_def fifo_map_def go_len_def go_lookup_def go_delete_def go_assign_def
          fifo_zero_def Let_def)
  subgoal by (simp add: fifo_nan2_def)
  subgoal by (simp add: fifo_nan2_def fifo_map_def go_len_def)
  subgoal by (simp add: NewLIFO_any_def NewLIFO_def lifo_nan0_def)
  subgoal
    by (simp add: lifo_nan0_def lifo_nan2_def lifo_set_any_def lifo_evict_any_def lifo_store_any_def
          lifo_isStopped_def lifo_map_def go_len_def go_lookup_def go_delete_def go_assign_def
          lifo_zero_def Let_def)
  subgoal by (simp add: lifo_nan2_def)
  subgoal by (simp add: lifo_nan2_def lifo_map_def go_len_def)
  subgoal by (simp add: NewLRU_any_def NewLRU_def lru_nan0_def)
  subgoal
    by (simp add: lru_nan0_def lru_nan2_def lru_set_any_def lru_evict_any_def lru_store_any_def
          lru_isStopped_def lru_map_def go_len_def go_lookup_def go_delete_def go_assign_def
          lru_zero_def lru_moveToTail_def Let_def)
  subgoal by (simp add: lru_nan2_def)
  subgoal by (simp add: lru_nan2_def lru_map_def go_len_def)
  subgoal by (simp add: NewRandom_any_def NewRandom_def random_nan0_def)
  subgoal by (rule random_nan_run)
  subgoal by (simp add: random_nan2_def)
  subgoal by (simp add: random_nan2_def random_map_def go_len_def)
  done

text \<open>
  C4, for keys that are equal to themselves. For every capacity \<open>n > 0\<close>, every key type
  and every finite run of \<open>Set\<close> calls whose keys are all equal to themselves, on a fresh
  FIFO, LIFO or LRU cache of capacity \<open>n\<close>: the run returns (no call panics), the map
  then has at most \<open>n\<close> entries, and the eviction block of the next \<open>set\<close> returns with
  fewer than \<open>n\<close> entries in the map, so that the insertion after it cannot exceed \<open>n\<close>
  either. For the random engine: the run has an outcome, and every outcome is a cache with
  at most \<open>n\<close> entries, also after the deletion of any key.
\<close>

theorem capacity_bound_self_equal_keys:
  "0 < n \<and> (\<forall>k\<in>fst ` set kvs. self k) \<longrightarrow>
     (\<exists>s0 s m. NewFIFO_any n = Inr s0 \<and> fifo_sets_any self s0 kvs = Inr s
         \<and> go_len (fifo_map s) \<le> n
         \<and> fifo_evict_any self s = Inr m \<and> go_len (fifo_map m) < n)
     \<and> (\<exists>s0 s m. NewLIFO_any n = Inr s0 \<and> lifo_sets_any self s0 kvs = Inr s
         \<and> go_len (lifo_map s) \<le> n
         \<and> lifo_evict_any self s = Inr m \<and> go_len (lifo_map m) < n)
     \<and> (\<exists>s0 s m. NewLRU_any n = Inr s0 \<and> lru_sets_any self s0 kvs = Inr s
         \<and> go_len (lru_map s) \<le> n
         \<and> lru_evict_any self s = Inr m \<and> go_len (lru_map m) < n)
     \<and> (\<exists>s0. NewRandom_any n = Inr s0 \<and> (\<exists>s. random_sets_any self s0 kvs (Inr s))
         \<and> (\<forall>r. random_sets_any self s0 kvs r \<longrightarrow>
               (\<exists>s. r = Inr s \<and> go_len (random_map s) \<le> n
                  \<and> (\<forall>k. go_len (go_delete self (random_map s) k) \<le> n))))"
  apply (intro impI, elim conjE, intro conjI)
  subgoal by (rule fifo_capacity_bound_any)
  subgoal by (rule lifo_capacity_bound_any)
  subgoal by (rule lru_capacity_bound_any)
  subgoal by (rule random_capacity_bound_any)
  done

theorem capacity_bound_self_equal_keys_witness:
  "(\<exists>s0 s m. NewFIFO_any 2 = Inr s0
       \<and> fifo_sets_any float64_self s0 [(Num 1, 1::int), (Num 2, 2), (Num 1, 3), (Num 3, 4)] = Inr s
       \<and> go_len (fifo_map s) \<le> 2
       \<and> fifo_evict_any float64_self s = Inr m \<and> go_len (fifo_map m) < 2)
   \<and> (\<exists>s0 s m. NewLIFO_any 2 = Inr s0
       \<and> lifo_sets_any float64_self s0 [(Num 1, 1::int), (Num 2, 2), (Num 1, 3), (Num 3, 4)] = Inr s
       \<and> go_len (lifo_map s) \<le> 2
       \<and> lifo_evict_any float64_self s = Inr m \<and> go_len (lifo_map m) < 2)
   \<and> (\<exists>s0 s m. NewLRU_any 2 = Inr s0
       \<and> lru_sets_any float64_self s0 [(Num 1, 1::int), (Num 2, 2), (Num 1, 3), (Num 3, 4)] = Inr s
       \<and> go_len (lru_map s) \<le> 2
       \<and> lru_evict_any float64_self s = Inr m \<and> go_len (lru_map m) < 2)
   \<and> (\<exists>s0. NewRandom_any 2 = Inr s0
       \<and> (\<exists>s. random_sets_any float64_self s0
                 [(Num 1, 1::int), (Num 2, 2), (Num 1, 3), (Num 3, 4)] (Inr s)))"
proof -
  have "0 < (2::int) \<and> (\<forall>k\<in>fst ` set [(Num 1, 1::int), (Num 2, 2), (Num 1, 3), (Num 3, 4)].
          float64_self k)"
    by simp
  with capacity_bound_self_equal_keys
         [of 2 "[(Num 1, 1::int), (Num 2, 2), (Num 1, 3), (Num 3, 4)]" float64_self]
  show ?thesis by blast
qed


section \<open>Set followed by Get\<close>

text \<open>
  On a state in order, \<open>set\<close> of FIFO, LIFO and LRU returns and a \<open>get\<close> of the key then
  finds the value. So does every outcome of the random \<open>set\<close>, and \<open>set\<close> of the list
  engine of TTL while the clock has not passed the expiry. For the heap engine of TTL the
  same holds whenever \<open>set\<close> returns.
\<close>

lemma fifo_inv_indexed: "fifo_inv l xs \<Longrightarrow> fifo_indexed l"
  unfolding fifo_inv_def fifo_indexed_def by (blast dest: path_valid)

lemma lifo_inv_indexed: "lifo_inv l xs \<Longrightarrow> lifo_indexed l"
  unfolding lifo_inv_def lifo_indexed_def by (blast dest: path_valid)

lemma fifo_store_get:
  assumes "fifo_indexed l" and "\<not> fifo_isStopped l"
  shows "fifo_get (fifo_store l key val) key = Inr ((val, True), fifo_store l key val)"
proof (cases "fmlookup (fifo_cache l) key")
  case None
  then show ?thesis
    using assms(2)
    by (auto simp: fifo_store_def fifo_get_def fifo_isStopped_def Let_def split: option.splits)
next
  case (Some node)
  with assms(1) have "node < length (fifo_cells l)" by (auto simp: fifo_indexed_def)
  with Some assms(2) show ?thesis
    by (simp add: fifo_store_def fifo_get_def fifo_isStopped_def)
qed

lemma fifo_set_get:
  assumes "fifo_inv l xs" and "\<not> fifo_isStopped l"
  shows "\<exists>l'. fifo_set l key val = Inr l' \<and> fifo_get l' key = Inr ((val, True), l')"
proof -
  from fifo_evict_inv [OF assms(1)] obtain l1 xs1
    where e: "fifo_evict l = Inr l1" and i1: "fifo_inv l1 xs1"
      and s1: "fifo_stopped l1 = fifo_stopped l" by blast
  from s1 assms(2) have "\<not> fifo_isStopped l1" by (simp add: fifo_isStopped_def)
  from fifo_store_get [OF fifo_inv_indexed [OF i1] this, of key val] e assms(2)
  show ?thesis by (simp add: fifo_set_def)
qed

lemma lifo_store_get:
  assumes "lifo_indexed l" and "\<not> lifo_isStopped l"
  shows "lifo_get (lifo_store l key val) key = Inr ((val, True), lifo_store l key val)"
proof (cases "fmlookup (lifo_cache l) key")
  case None
  then show ?thesis
    using assms(2)
    by (auto simp: lifo_store_def lifo_get_def lifo_isStopped_def Let_def)
next
  case (Some node)
  with assms(1) have "node < length (lifo_cells l)" by (auto simp: lifo_indexed_def)
  with Some assms(2) show ?thesis
    by (simp add: lifo_store_def lifo_get_def lifo_isStopped_def)
qed

lemma lifo_set_get:
  assumes "lifo_inv l xs" and "\<not> lifo_isStopped l"
  shows "\<exists>l'. lifo_set l key val = Inr l' \<and> lifo_get l' key = Inr ((val, True), l')"
proof -
  from lifo_evict_inv [OF assms(1)] obtain l1 xs1
    where e: "lifo_evict l = Inr l1" and i1: "lifo_inv l1 xs1"
      and s1: "lifo_stopped l1 = lifo_stopped l" by blast
  from s1 assms(2) have "\<not> lifo_isStopped l1" by (simp add: lifo_isStopped_def)
  from lifo_store_get [OF lifo_inv_indexed [OF i1] this, of key val] e assms(2)
  show ?thesis by (simp add: lifo_set_def)
qed

lemma lru_store_get:
  assumes "lru_store l key val = Inr l'" and "\<not> lru_isStopped l"
  shows "\<exists>l''. lru_get l' key = Inr ((val, True), l'')"
proof -
  from assms(1) obtain node l1 where l': "l' = lru_moveToTail l1 node"
    and lk: "fmlookup (lru_cache l1) key = Some node"
    and nv: "node < length (lru_cells l1)"
    and val: "lru_value (lru_cells l1 ! node) = val"
    and s1: "lru_stopped l1 = lru_stopped l"
    by (auto simp: lru_store_def Let_def split: option.splits if_splits)
  have "\<not> lru_isStopped l'"
    using assms(2) s1 by (simp add: l' lru_isStopped_def lru_moveToTail_flags)
  moreover have "fmlookup (lru_cache l') key = Some node" using lk by (simp add: l' lru_moveToTail_cache)
  moreover have "node < length (lru_cells l')" using nv by (simp add: l' lru_moveToTail_length)
  moreover have "lru_value (lru_cells (lru_moveToTail l' node) ! node) = val"
    using val by (simp add: l' lru_moveToTail_value)
  ultimately show ?thesis by (simp add: lru_get_def Let_def)
qed

lemma lru_set_get:
  assumes "lru_inv l xs" and "\<not> lru_isStopped l"
  shows "\<exists>l' l''. lru_set l key val = Inr l' \<and> lru_get l' key = Inr ((val, True), l'')"
proof -
  from lru_evict_inv [OF assms(1)] obtain l1 xs1
    where e: "lru_evict l = Inr l1" and i1: "lru_inv l1 xs1"
      and r: "len (lru_cache l1) < lru_capacity l"
      and c1: "lru_capacity l1 = lru_capacity l" and s1: "lru_stopped l1 = lru_stopped l"
    by blast
  from s1 assms(2) have ns: "\<not> lru_isStopped l1" by (simp add: lru_isStopped_def)
  from r c1 have "len (lru_cache l1) < lru_capacity l1" by simp
  from lru_store_inv [OF i1 this, of key val] obtain l' where st: "lru_store l1 key val = Inr l'"
    by blast
  from lru_store_get [OF st ns] obtain l'' where "lru_get l' key = Inr ((val, True), l'')" ..
  with e st assms(2) show ?thesis by (auto simp: lru_set_def)
qed

lemma random_set_get:
  assumes "random_set l key val (Inr l')"
  shows "random_get l' key = Inr ((val, True), l')"
  using assms by cases (simp_all add: random_get_def random_isStopped_def)

lemma ttl_set_get:
  assumes "ttl_indexed l" and "\<not> ttl_isStopped l" and "now' \<le> now + ttl_ttl l"
  shows "\<exists>l'. ttl_set l key val now = Inr l' \<and> ttl_get l' key now' = Inr ((val, True), l')"
proof (cases "fmlookup (ttl_cache l) key")
  case None
  then show ?thesis
    using assms(2,3)
    by (auto simp: ttl_set_def ttl_get_def ttl_isStopped_def Let_def nth_update_total nth_append
             split: option.splits)
next
  case (Some node)
  with assms(1) have "node < length (ttl_cells l)" by (auto simp: ttl_indexed_def)
  with Some assms(2,3) show ?thesis
    by (auto simp: ttl_set_def ttl_get_def ttl_isStopped_def Let_def nth_update_total
             split: option.splits)
qed

lemma ttlh_set_get:
  assumes "ttlh_set l key val now = Inr l'" and "now' \<le> now + ttlh_ttl l"
  shows "ttlh_get l' key now' = Inr ((val, True), l')"
  using assms
  by (auto simp: ttlh_set_def ttlh_get_def ttlh_isStopped_def Let_def
           split: if_splits sum.splits)

lemma ttl_set_indexed:
  assumes "ttl_indexed l" and "ttl_set l key val now = Inr l'"
  shows "ttl_indexed l'"
  unfolding ttl_indexed_def
proof (intro allI impI)
  fix k a assume ka: "fmlookup (ttl_cache l') k = Some a"
  have old: "b < length (ttl_cells l) \<and> ttl_expiresAt (ttl_cells l ! b) \<noteq> None"
    if "fmlookup (ttl_cache l) j = Some b" for j b
    using assms(1) that by (auto simp: ttl_indexed_def)
  show "a < length (ttl_cells l') \<and> ttl_expiresAt (ttl_cells l' ! a) \<noteq> None"
  proof (cases "fmlookup (ttl_cache l) key")
    case None
    show ?thesis
    proof (cases "k = key")
      case True
      with None assms(2) ka show ?thesis
        by (auto simp: ttl_set_def Let_def nth_update_total nth_append
                 split: if_splits option.splits)
    next
      case False
      with None assms(2) ka have "fmlookup (ttl_cache l) k = Some a"
        by (auto simp: ttl_set_def Let_def split: if_splits)
      from old [OF this] None assms(2) show ?thesis
        by (auto simp: ttl_set_def Let_def nth_update_total nth_append
                 split: if_splits option.splits)
    qed
  next
    case (Some n)
    with assms(2) ka have "fmlookup (ttl_cache l) k = Some a"
      by (auto simp: ttl_set_def Let_def split: if_splits)
    from old [OF this] old [OF Some] Some assms(2) show ?thesis
      by (auto simp: ttl_set_def Let_def nth_update_total
               split: if_splits option.splits)
  qed
qed

text \<open>
  C9. The claim: in every engine \<open>Set(k, v)\<close> followed by \<open>Get(k)\<close> returns \<open>(v, true)\<close>.
  In the heap engine of TTL, with TTL 10: after \<open>Set("a", 1)\<close> at 0, which \<open>Get\<close> answers
  with \<open>(1, true)\<close>, the call \<open>Set("a", 2)\<close> at 1 panics with a nil pointer dereference:
  \<open>heap.Push\<close> compares the new item with the item just zeroed, whose \<open>expiresAt\<close> is
  \<open>nil\<close>.
\<close>

theorem ttlh_overwrite_panics:
  "\<exists>l0 l1. NewTTLh 10 = Inr l0
      \<and> ttlh_set l0 ''a'' (1::int) 0 = Inr l1
      \<and> ttlh_get l1 ''a'' 0 = Inr ((1, True), l1)
      \<and> ttlh_set l1 ''a'' 2 1 = Inl NilPointer"
  by (simp add: ttlh_defs)


section \<open>Recency order of LRU\<close>

text \<open>Facts of every state: where the tail is after \<open>get\<close> and \<open>set\<close>, and what the eviction block deletes.\<close>

lemma lru_get_hit_tail:
  assumes "lru_get l k = Inr ((v, True), l')"
  shows "lru_tail l' = fmlookup (lru_cache l') k \<and> lru_tail l' \<noteq> None"
proof -
  from assms obtain node
    where "fmlookup (lru_cache l) k = Some node" and "l' = lru_moveToTail l node"
    by (auto simp: lru_get_def Let_def split: if_splits option.splits)
  then show ?thesis
    by (simp add: lru_moveToTail_tail lru_moveToTail_cache)
qed

lemma lru_store_tail:
  assumes "lru_store l k v = Inr l'"
  shows "lru_tail l' = fmlookup (lru_cache l') k \<and> lru_tail l' \<noteq> None"
  using assms
  by (auto simp: lru_store_def Let_def lru_moveToTail_tail lru_moveToTail_cache
           split: if_splits option.splits)

lemma lru_set_tail:
  assumes "lru_set l k v = Inr l'"
  shows "lru_tail l' = fmlookup (lru_cache l') k \<and> lru_tail l' \<noteq> None"
proof -
  from assms obtain l1 where "lru_store l1 k v = Inr l'"
    by (auto simp: lru_set_def split: if_splits sum.splits)
  then show ?thesis by (rule lru_store_tail)
qed

lemma lru_evict_head:
  assumes "lru_capacity l \<le> len (lru_cache l)" and "lru_evict l = Inr l'"
  shows "\<exists>h hk. lru_head l = Some h \<and> lru_key (lru_cells l ! h) = Some hk
            \<and> lru_cache l' = fmdrop hk (lru_cache l)
            \<and> lru_head l' = lru_next (lru_cells l ! h)"
  using assms by (auto simp: lru_evict_def Let_def split: if_splits option.splits)

lemma lru_scenario:
  assumes "distinct [a, b, c, d]"
  shows "\<exists>l0 l3 l4 l5. NewLRU 3 = Inr l0
         \<and> lru_sets l0 [(a, x), (b, y), (c, z)] = Inr l3
         \<and> lru_key_at l3 (lru_head l3) = Some a
         \<and> lru_get l3 a = Inr ((x, True), l4)
         \<and> lru_key_at l4 (lru_head l4) = Some b
         \<and> lru_key_at l4 (lru_tail l4) = Some a
         \<and> lru_set l4 d w = Inr l5
         \<and> fmlookup (lru_cache l5) b = None
         \<and> fmdom (lru_cache l5) = {|a, c, d|}
         \<and> lru_key_at l5 (lru_tail l5) = Some d
         \<and> (\<exists>l6. lru_get l5 b = Inr ((0, False), l6))
         \<and> (\<exists>l6. lru_get l5 a = Inr ((x, True), l6))
         \<and> (\<exists>l6. lru_get l5 c = Inr ((z, True), l6))
         \<and> (\<exists>l6. lru_get l5 d = Inr ((w, True), l6))"
  using assms by (auto simp: lru_defs)

text \<open>
  On a state in order, \<open>get\<close> and \<open>set\<close> move exactly the cell they touch to the end of
  the list and leave the order of the other cells as it was; at capacity \<open>set\<close> first takes
  the head cell off the list.
\<close>

lemma lru_abc_reached:
  "\<exists>l0. NewLRU 3 = Inr l0 \<and> lru_sets l0 [(''a'', 1), (''b'', 2), (''c'', 3)] = Inr lru_abc"
  by (simp add: lru_defs lru_abc_def numeral_2_eq_2)

lemma lru_abc_inv: "lru_inv lru_abc [0, 1, 2]"
  unfolding lru_inv_def lru_abc_def
  by (auto split: if_splits)

lemma lru_example_inv: "lru_inv lru_example [0]"
  unfolding lru_inv_def lru_example_def
  by (auto split: if_splits)

lemma lru_get_order:
  assumes inv: "lru_inv l (as @ n # bs)" and ns: "\<not> lru_isStopped l"
    and lk: "fmlookup (lru_cache l) k = Some n"
  shows "\<exists>l'. lru_get l k = Inr ((lru_value (lru_cells l ! n), True), l')
           \<and> lru_inv l' (as @ bs @ [n])"
proof -
  from inv have "path lru_next (lru_cells l) (lru_head l) (as @ n # bs) None"
    unfolding lru_inv_def by blast
  from path_valid [OF this] have nv: "n < length (lru_cells l)" by simp
  have "lru_get l k = Inr ((lru_value (lru_cells l ! n), True), lru_moveToTail l n)"
    using ns lk nv by (simp add: lru_get_def Let_def lru_moveToTail_value)
  with lru_moveToTail_order [OF inv] show ?thesis by blast
qed

lemma lru_evict_room:
  "len (lru_cache l) < lru_capacity l \<Longrightarrow> lru_evict l = Inr l"
  by (simp add: lru_evict_def)

lemma lru_set_present:
  assumes inv: "lru_inv l (as @ n # bs)" and ns: "\<not> lru_isStopped l"
    and room: "len (lru_cache l) < lru_capacity l"
    and lk: "fmlookup (lru_cache l) k = Some n"
  shows "\<exists>l'. lru_set l k v = Inr l' \<and> lru_inv l' (as @ bs @ [n])
           \<and> lru_cache l' = lru_cache l \<and> lru_value (lru_cells l' ! n) = v"
proof -
  from lru_store_present [OF inv lk, of v] obtain l'
    where "lru_store l k v = Inr l'" and "lru_inv l' (as @ bs @ [n])"
      and "lru_cache l' = lru_cache l" and "lru_value (lru_cells l' ! n) = v"
    by blast
  moreover have "lru_set l k v = lru_store l k v"
    using ns by (simp add: lru_set_def lru_evict_room [OF room])
  ultimately show ?thesis by simp
qed

lemma lru_set_new:
  assumes inv: "lru_inv l xs" and ns: "\<not> lru_isStopped l"
    and room: "len (lru_cache l) < lru_capacity l"
    and absent: "fmlookup (lru_cache l) k = None"
  shows "\<exists>l'. lru_set l k v = Inr l' \<and> lru_inv l' (xs @ [length (lru_cells l)])
           \<and> lru_cache l' = fmupd k (length (lru_cells l)) (lru_cache l)
           \<and> lru_key (lru_cells l' ! length (lru_cells l)) = Some k
           \<and> lru_value (lru_cells l' ! length (lru_cells l)) = v"
proof -
  from lru_store_new [OF inv room absent, of v] obtain l'
    where "lru_store l k v = Inr l'" and "lru_inv l' (xs @ [length (lru_cells l)])"
      and "lru_cache l' = fmupd k (length (lru_cells l)) (lru_cache l)"
      and "lru_key (lru_cells l' ! length (lru_cells l)) = Some k"
      and "lru_value (lru_cells l' ! length (lru_cells l)) = v"
    by blast
  moreover have "lru_set l k v = lru_store l k v"
    using ns by (simp add: lru_set_def lru_evict_room [OF room])
  ultimately show ?thesis by simp
qed

lemma lru_set_full:
  assumes inv: "lru_inv l xs" and ns: "\<not> lru_isStopped l"
    and full: "lru_capacity l \<le> len (lru_cache l)"
  shows "\<exists>h ys hk m. xs = h # ys \<and> lru_head l = Some h \<and> lru_key (lru_cells l ! h) = Some hk
           \<and> lru_evict l = Inr m \<and> lru_inv m ys \<and> lru_cache m = fmdrop hk (lru_cache l)
           \<and> len (lru_cache m) < lru_capacity m \<and> \<not> lru_isStopped m
           \<and> lru_set l k v = lru_set m k v"
proof -
  from lru_evict_order [OF inv full] obtain h ys hk m
    where f: "xs = h # ys" "lru_head l = Some h" "lru_key (lru_cells l ! h) = Some hk"
      "lru_evict l = Inr m" "lru_inv m ys" "lru_cache m = fmdrop hk (lru_cache l)"
      and r: "len (lru_cache m) < lru_capacity l"
      and c: "lru_capacity m = lru_capacity l" and s: "lru_stopped m = lru_stopped l"
    by blast
  from r c have room: "len (lru_cache m) < lru_capacity m" by simp
  from s ns have nsm: "\<not> lru_isStopped m" by (simp add: lru_isStopped_def)
  have "lru_set m k v = lru_store m k v"
    using nsm by (simp add: lru_set_def lru_evict_room [OF room])
  moreover have "lru_set l k v = lru_store m k v"
    using ns f(4) by (simp add: lru_set_def)
  ultimately have "lru_set l k v = lru_set m k v" by simp
  with f room nsm show ?thesis by blast
qed

text \<open>
  C5. LRU, capacity 3, four different keys: after \<open>Set(a)\<close>, \<open>Set(b)\<close>, \<open>Set(c)\<close> the head
  holds \<open>a\<close>; \<open>Get(a)\<close> moves \<open>a\<close> to the tail and leaves \<open>b\<close> at the head; \<open>Set(d)\<close>
  then evicts \<open>b\<close>, and \<open>a\<close>, \<open>c\<close>, \<open>d\<close> can be read. In general, with the list of the
  cells from the head to the tail as the recency order (\<open>lru_inv\<close>):
  \<^item> a fresh cache is in order for the empty list;
  \<^item> \<open>moveToTail\<close> of a cell \<open>n\<close> of the list \<open>as @ n # bs\<close> leaves the state in order for
    \<open>as @ bs @ [n]\<close>: \<open>n\<close> is unlinked where it was and linked at the tail, and the other
    cells keep their order;
  \<^item> a \<open>get\<close> that finds its key in the cell \<open>n\<close> returns the value of \<open>n\<close> and moves
    \<open>n\<close> to the tail in this way;
  \<^item> below capacity, a \<open>set\<close> of a key that the map holds in the cell \<open>n\<close> writes the
    value and moves \<open>n\<close> to the tail in this way, and a \<open>set\<close> of a new key appends a new
    cell with the key and the value to the list;
  \<^item> at capacity, \<open>set\<close> first evicts the head: the list is \<open>h # ys\<close>, the key of \<open>h\<close>
    leaves the map, the state is in order for \<open>ys\<close> and below capacity, and \<open>set\<close> goes on
    from there.

  And of every state: after a \<open>get\<close> that finds the key, and after every \<open>set\<close> that
  returns, the tail is the cell the map holds for the key; the eviction step of a \<open>set\<close> at
  capacity deletes the key of the head cell from the map and moves the head to its successor.
\<close>

theorem lru_evicts_least_recent:
  "(distinct [a, b, c, d] \<longrightarrow>
      (\<exists>l0 l3 l4 l5. NewLRU 3 = Inr l0
         \<and> lru_sets l0 [(a, x), (b, y), (c, z)] = Inr l3
         \<and> lru_key_at l3 (lru_head l3) = Some a
         \<and> lru_get l3 a = Inr ((x, True), l4)
         \<and> lru_key_at l4 (lru_head l4) = Some b
         \<and> lru_key_at l4 (lru_tail l4) = Some a
         \<and> lru_set l4 d w = Inr l5
         \<and> fmlookup (lru_cache l5) b = None
         \<and> fmdom (lru_cache l5) = {|a, c, d|}
         \<and> lru_key_at l5 (lru_tail l5) = Some d
         \<and> (\<exists>l6. lru_get l5 b = Inr ((0, False), l6))
         \<and> (\<exists>l6. lru_get l5 a = Inr ((x, True), l6))
         \<and> (\<exists>l6. lru_get l5 c = Inr ((z, True), l6))
         \<and> (\<exists>l6. lru_get l5 d = Inr ((w, True), l6))))
   \<and> (\<forall>n. 0 < n \<longrightarrow> (\<exists>l0. NewLRU n = Inr l0 \<and> lru_inv l0 [] \<and> \<not> lru_isStopped l0
            \<and> lru_capacity l0 = n))
   \<and> (\<forall>l as n bs. lru_inv l (as @ n # bs) \<longrightarrow> lru_inv (lru_moveToTail l n) (as @ bs @ [n]))
   \<and> (\<forall>l as n bs k. lru_inv l (as @ n # bs) \<and> \<not> lru_isStopped l
          \<and> fmlookup (lru_cache l) k = Some n \<longrightarrow>
         (\<exists>l'. lru_get l k = Inr ((lru_value (lru_cells l ! n), True), l')
            \<and> lru_inv l' (as @ bs @ [n])))
   \<and> (\<forall>l as n bs k v. lru_inv l (as @ n # bs) \<and> \<not> lru_isStopped l
          \<and> len (lru_cache l) < lru_capacity l \<and> fmlookup (lru_cache l) k = Some n \<longrightarrow>
         (\<exists>l'. lru_set l k v = Inr l' \<and> lru_inv l' (as @ bs @ [n])
            \<and> lru_cache l' = lru_cache l \<and> lru_value (lru_cells l' ! n) = v))
   \<and> (\<forall>l xs k v. lru_inv l xs \<and> \<not> lru_isStopped l
          \<and> len (lru_cache l) < lru_capacity l \<and> fmlookup (lru_cache l) k = None \<longrightarrow>
         (\<exists>l'. lru_set l k v = Inr l' \<and> lru_inv l' (xs @ [length (lru_cells l)])
            \<and> lru_cache l' = fmupd k (length (lru_cells l)) (lru_cache l)
            \<and> lru_key (lru_cells l' ! length (lru_cells l)) = Some k
            \<and> lru_value (lru_cells l' ! length (lru_cells l)) = v))
   \<and> (\<forall>l xs k v. lru_inv l xs \<and> \<not> lru_isStopped l
          \<and> lru_capacity l \<le> len (lru_cache l) \<longrightarrow>
         (\<exists>h ys hk m. xs = h # ys \<and> lru_head l = Some h \<and> lru_key (lru_cells l ! h) = Some hk
            \<and> lru_evict l = Inr m \<and> lru_inv m ys \<and> lru_cache m = fmdrop hk (lru_cache l)
            \<and> len (lru_cache m) < lru_capacity m \<and> \<not> lru_isStopped m
            \<and> lru_set l k v = lru_set m k v))
   \<and> (\<forall>l k v l'. lru_get l k = Inr ((v, True), l') \<longrightarrow>
         lru_tail l' = fmlookup (lru_cache l') k \<and> lru_tail l' \<noteq> None)
   \<and> (\<forall>l k v l'. lru_set l k v = Inr l' \<longrightarrow>
         lru_tail l' = fmlookup (lru_cache l') k \<and> lru_tail l' \<noteq> None)
   \<and> (\<forall>l l'. lru_capacity l \<le> len (lru_cache l) \<and> lru_evict l = Inr l' \<longrightarrow>
         (\<exists>h hk. lru_head l = Some h \<and> lru_key (lru_cells l ! h) = Some hk
            \<and> lru_cache l' = fmdrop hk (lru_cache l)
            \<and> lru_head l' = lru_next (lru_cells l ! h)))"
  apply (intro conjI)
  subgoal by (intro impI) (rule lru_scenario)
  subgoal by (intro allI impI) (rule lru_inv_New)
  subgoal by (intro allI impI) (rule lru_moveToTail_order)
  subgoal by (intro allI impI, elim conjE) (rule lru_get_order)
  subgoal by (intro allI impI, elim conjE) (rule lru_set_present)
  subgoal by (intro allI impI, elim conjE) (rule lru_set_new)
  subgoal by (intro allI impI, elim conjE) (rule lru_set_full)
  subgoal by (intro allI impI) (rule lru_get_hit_tail)
  subgoal by (intro allI impI) (rule lru_set_tail)
  subgoal by (intro allI impI, elim conjE) (rule lru_evict_head)
  done

theorem lru_evicts_least_recent_witness:
  "(\<exists>l0 l3 l4 l5. NewLRU 3 = Inr l0
     \<and> lru_sets l0 [(''a'', 1::int), (''b'', 2), (''c'', 3)] = Inr l3
     \<and> lru_key_at l3 (lru_head l3) = Some ''a''
     \<and> lru_get l3 ''a'' = Inr ((1, True), l4)
     \<and> lru_key_at l4 (lru_head l4) = Some ''b''
     \<and> lru_key_at l4 (lru_tail l4) = Some ''a''
     \<and> lru_set l4 ''d'' 4 = Inr l5
     \<and> fmlookup (lru_cache l5) ''b'' = None
     \<and> fmdom (lru_cache l5) = {|''a'', ''c'', ''d''|}
     \<and> lru_key_at l5 (lru_tail l5) = Some ''d''
     \<and> (\<exists>l6. lru_get l5 ''b'' = Inr ((0, False), l6))
     \<and> (\<exists>l6. lru_get l5 ''a'' = Inr ((1, True), l6))
     \<and> (\<exists>l6. lru_get l5 ''c'' = Inr ((3, True), l6))
     \<and> (\<exists>l6. lru_get l5 ''d'' = Inr ((4, True), l6)))
   \<and> lru_inv lru_abc [0, 1, 2]
   \<and> lru_inv (lru_moveToTail lru_abc 1) [0, 2, 1]
   \<and> (\<exists>l'. lru_get lru_abc ''b'' = Inr ((2, True), l') \<and> lru_inv l' [0, 2, 1])
   \<and> (\<exists>m. lru_evict lru_abc = Inr m \<and> lru_inv m [1, 2]
          \<and> lru_cache m = fmdrop ''a'' (lru_cache lru_abc)
          \<and> lru_set lru_abc ''d'' 4 = lru_set m ''d'' 4)
   \<and> (\<exists>l'. lru_set lru_example ''a'' 5 = Inr l' \<and> lru_inv l' [0]
          \<and> lru_value (lru_cells l' ! 0) = 5)
   \<and> (\<exists>l'. lru_set lru_example ''b'' 2 = Inr l' \<and> lru_inv l' [0, 1]
          \<and> lru_key (lru_cells l' ! 1) = Some ''b'')"
proof -
  note main = lru_evicts_least_recent [of "''a''" "''b''" "''c''" "''d''" "1::int" 2 3 4]
  note rest1 = main [THEN conjunct2]
  note rest2 = rest1 [THEN conjunct2]
  note rest3 = rest2 [THEN conjunct2]
  note rest4 = rest3 [THEN conjunct2]
  note rest5 = rest4 [THEN conjunct2]
  note rest6 = rest5 [THEN conjunct2]
  note scenario = main [THEN conjunct1, rule_format]
  note move = rest2 [THEN conjunct1, rule_format]
  note get_hit = rest3 [THEN conjunct1, rule_format]
  note set_present = rest4 [THEN conjunct1, rule_format]
  note set_new = rest5 [THEN conjunct1, rule_format]
  note set_full = rest6 [THEN conjunct1, rule_format]
  have i3: "lru_inv lru_abc ([0] @ 1 # [2])" using lru_abc_inv by simp
  have ns3: "\<not> lru_isStopped lru_abc" by (simp add: lru_isStopped_def lru_abc_def)
  have lkb: "fmlookup (lru_cache lru_abc) ''b'' = Some 1" by (simp add: lru_abc_def)
  have full3: "lru_capacity lru_abc \<le> len (lru_cache lru_abc)" by (simp add: lru_abc_def)
  have hd3: "lru_head lru_abc = Some 0" "lru_key (lru_cells lru_abc ! 0) = Some ''a''"
    by (simp_all add: lru_abc_def)
  have v3: "lru_value (lru_cells lru_abc ! 1) = 2" by (simp add: lru_abc_def)
  have i1: "lru_inv lru_example ([] @ 0 # [])" using lru_example_inv by simp
  have ns1: "\<not> lru_isStopped lru_example" by (simp add: lru_isStopped_def lru_example_def)
  have room1: "len (lru_cache lru_example) < lru_capacity lru_example"
    by (simp add: lru_example_def)
  have lka: "fmlookup (lru_cache lru_example) ''a'' = Some 0" by (simp add: lru_example_def)
  have lkn: "fmlookup (lru_cache lru_example) ''b'' = None" by (simp add: lru_example_def)
  have len1: "length (lru_cells lru_example) = 1" by (simp add: lru_example_def)
  have c0: "\<exists>l0 l3 l4 l5. NewLRU 3 = Inr l0
     \<and> lru_sets l0 [(''a'', 1::int), (''b'', 2), (''c'', 3)] = Inr l3
     \<and> lru_key_at l3 (lru_head l3) = Some ''a''
     \<and> lru_get l3 ''a'' = Inr ((1, True), l4)
     \<and> lru_key_at l4 (lru_head l4) = Some ''b''
     \<and> lru_key_at l4 (lru_tail l4) = Some ''a''
     \<and> lru_set l4 ''d'' 4 = Inr l5
     \<and> fmlookup (lru_cache l5) ''b'' = None
     \<and> fmdom (lru_cache l5) = {|''a'', ''c'', ''d''|}
     \<and> lru_key_at l5 (lru_tail l5) = Some ''d''
     \<and> (\<exists>l6. lru_get l5 ''b'' = Inr ((0, False), l6))
     \<and> (\<exists>l6. lru_get l5 ''a'' = Inr ((1, True), l6))
     \<and> (\<exists>l6. lru_get l5 ''c'' = Inr ((3, True), l6))
     \<and> (\<exists>l6. lru_get l5 ''d'' = Inr ((4, True), l6))"
    by (rule scenario) simp
  have c1: "lru_inv (lru_moveToTail lru_abc 1) [0, 2, 1]"
    using move [OF i3] by simp
  have c2: "\<exists>l'. lru_get lru_abc ''b'' = Inr ((2, True), l') \<and> lru_inv l' [0, 2, 1]"
    using get_hit [of lru_abc "[0]" 1 "[2]" "''b''"] i3 ns3 lkb v3 by simp
  have c3: "\<exists>m. lru_evict lru_abc = Inr m \<and> lru_inv m [1, 2]
          \<and> lru_cache m = fmdrop ''a'' (lru_cache lru_abc)
          \<and> lru_set lru_abc ''d'' 4 = lru_set m ''d'' 4"
    using set_full [of lru_abc "[0, 1, 2]" "''d''" 4] lru_abc_inv ns3 full3 hd3 by auto
  have c4: "\<exists>l'. lru_set lru_example ''a'' 5 = Inr l' \<and> lru_inv l' [0]
          \<and> lru_value (lru_cells l' ! 0) = 5"
    using set_present [of lru_example "[]" 0 "[]" "''a''" 5] i1 ns1 room1 lka by auto
  have c5: "\<exists>l'. lru_set lru_example ''b'' 2 = Inr l' \<and> lru_inv l' [0, 1]
          \<and> lru_key (lru_cells l' ! 1) = Some ''b''"
    using set_new [of lru_example "[0]" "''b''" 2] lru_example_inv ns1 room1 lkn len1 by auto
  show ?thesis by (intro conjI c0 lru_abc_inv c1 c2 c3 c4 c5)
qed

end
